theory Spec2Isabelle
  imports Main
begin

section \<open>Items, pointers and the queue\<close>

text \<open>
  The Go struct \<^verbatim>\<open>Item\<close> of \<^verbatim>\<open>int.go\<close>. Its first field is called \<^verbatim>\<open>value\<close> in the
  source; the name is taken by Isabelle's outer syntax, hence \<open>item_value\<close>.
  Go's \<^verbatim>\<open>int\<close> is modelled by \<open>int\<close>: priorities and values are only stored and compared,
  and every index computed below stays under twice the length of the slice, so no
  arithmetic of the program can wrap around.
\<close>

record Item =
  item_value :: int
  priority :: int
  index :: int

text \<open>
  The queue holds pointers (\<^verbatim>\<open>[]*Item\<close>): an Item is shared between the caller and the
  queue, and \<^verbatim>\<open>Swap\<close>, \<^verbatim>\<open>Push\<close> and \<^verbatim>\<open>Pop\<close> write its \<^verbatim>\<open>index\<close> field through the
  pointer. A pointer is an address \<open>ref\<close> into the store \<open>mem\<close> of all allocated Items
  (pointers are non-nil). The slice itself is its visible elements \<open>pq\<close> (so
  \<^verbatim>\<open>len(pq)\<close> is \<open>length (pq s)\<close>) and the capacity \<open>cap\<close> of its backing array.
\<close>

type_synonym ref = nat

record state =
  mem :: "ref \<Rightarrow> Item"
  pq :: "ref list"
  cap :: nat

text \<open>
  Run-time panics of Go are results \<open>Inl\<close>. The first three are the panics the source can
  raise. \<open>EmptyCollection\<close> and \<open>InvalidHandle\<close> are the two errors named by the
  specification; no function of the source produces them, they are here so that
  statements about them can be written.
\<close>

datatype error =
    IndexOutOfRange
  | SliceBoundsOutOfRange
  | MakeSliceCapOutOfRange
  | EmptyCollection
  | InvalidHandle

definition NewIntQueue :: "(ref \<Rightarrow> Item) \<Rightarrow> int \<Rightarrow> error + state" where
  "NewIntQueue m n =
     (if n < 0 then Inl MakeSliceCapOutOfRange
      else Inr \<lparr>mem = m, pq = [], cap = nat n\<rparr>)"

definition Len :: "state \<Rightarrow> int" where
  "Len s = int (length (pq s))"

definition in_range :: "state \<Rightarrow> int \<Rightarrow> bool" where
  "in_range s i \<longleftrightarrow> 0 \<le> i \<and> i < Len s"

definition Less :: "state \<Rightarrow> int \<Rightarrow> int \<Rightarrow> error + bool" where
  "Less s i j =
     (if in_range s i \<and> in_range s j
      then Inr (priority (mem s (pq s ! nat i)) > priority (mem s (pq s ! nat j)))
      else Inl IndexOutOfRange)"

definition set_index :: "state \<Rightarrow> ref \<Rightarrow> int \<Rightarrow> state" where
  "set_index s r i = s\<lparr>mem := (mem s)(r := (mem s r)\<lparr>index := i\<rparr>)\<rparr>"

text \<open>
  \<^verbatim>\<open>pq[i], pq[j] = pq[j], pq[i]; pq[i].index = i; pq[j].index = j\<close>: both index
  expressions are checked before anything is written, then the two fields are written
  one after the other, each through the pointer found in the slice at that moment.
\<close>

definition Swap :: "state \<Rightarrow> int \<Rightarrow> int \<Rightarrow> error + state" where
  "Swap s i j =
     (if in_range s i \<and> in_range s j
      then (let s1 = s\<lparr>pq := (pq s)[nat i := pq s ! nat j, nat j := pq s ! nat i]\<rparr>;
                s2 = set_index s1 (pq s1 ! nat i) i;
                s3 = set_index s2 (pq s2 ! nat j) j
            in Inr s3)
      else Inl IndexOutOfRange)"

text \<open>
  \<^verbatim>\<open>Push\<close> does not append: it reslices \<^verbatim>\<open>a[0 : n+1]\<close>, which panics when \<open>n + 1\<close>
  exceeds the capacity, and only then writes the index and the element.
\<close>

definition Push :: "state \<Rightarrow> ref \<Rightarrow> error + state" where
  "Push s x =
     (let n = Len s
      in if n + 1 > int (cap s) then Inl SliceBoundsOutOfRange
         else Inr ((set_index s x n)\<lparr>pq := pq s @ [x]\<rparr>))"

definition Pop :: "state \<Rightarrow> error + (ref \<times> state)" where
  "Pop s =
     (let n = Len s
      in if \<not> in_range s (n - 1) then Inl IndexOutOfRange
         else (let item = pq s ! nat (n - 1);
                   s1 = set_index s item (- 1)
               in Inr (item, s1\<lparr>pq := take (nat (n - 1)) (pq s)\<rparr>)))"

section \<open>The functions of container/heap that the queue is used through\<close>

text \<open>
  \<^verbatim>\<open>int.go\<close> reaches its queue through \<^verbatim>\<open>heap.Push\<close>, \<^verbatim>\<open>heap.Pop\<close> and \<^verbatim>\<open>heap.Remove\<close>.
  These are not code of the repository: they are transcribed here from Go's standard
  library (\<^verbatim>\<open>container/heap/heap.go\<close> as in current releases), with their loops \<^verbatim>\<open>up\<close>
  and \<^verbatim>\<open>down\<close>, and call the methods above where the library calls the interface.
  The library passes the pushed element as an interface value; every caller in
  \<^verbatim>\<open>int.go\<close> passes a \<^verbatim>\<open>*Item\<close>, so the type assertion in \<^verbatim>\<open>Push\<close> is the identity on a
  \<open>ref\<close>. Go's integer division truncates toward zero, so the parent \<^verbatim>\<open>(j - 1) / 2\<close> of
  position 0 is 0; \<^verbatim>\<open>down\<close> returns whether the element moved, computed from the final
  position that \<open>down_loop\<close> returns.
\<close>

definition go_div :: "int \<Rightarrow> int \<Rightarrow> int" where
  "go_div a b = sgn a * sgn b * (\<bar>a\<bar> div \<bar>b\<bar>)"

function up :: "state \<Rightarrow> int \<Rightarrow> error + state" where
  "up s j =
     (let i = go_div (j - 1) 2
      in if i = j then Inr s
         else (case Less s j i of
                 Inl e \<Rightarrow> Inl e
               | Inr b \<Rightarrow>
                   if \<not> b then Inr s
                   else (case Swap s i j of
                           Inl e \<Rightarrow> Inl e
                         | Inr s' \<Rightarrow> up s' i)))"
  by pat_completeness auto
termination
  by (relation "measure (\<lambda>(s, j). nat j)")
     (auto simp: go_div_def Less_def in_range_def sgn_if split: if_splits)

function down_loop :: "state \<Rightarrow> int \<Rightarrow> int \<Rightarrow> error + (state \<times> int)" where
  "down_loop s i n =
     (let j1 = 2 * i + 1
      in if j1 \<ge> n \<or> j1 < 0 then Inr (s, i)
         else (case (if j1 + 1 < n then Less s (j1 + 1) j1 else Inr False) of
                 Inl e \<Rightarrow> Inl e
               | Inr r \<Rightarrow>
                   (let j = (if r then j1 + 1 else j1)
                    in case Less s j i of
                         Inl e \<Rightarrow> Inl e
                       | Inr b \<Rightarrow>
                           if \<not> b then Inr (s, i)
                           else (case Swap s i j of
                                   Inl e \<Rightarrow> Inl e
                                 | Inr s' \<Rightarrow> down_loop s' j n))))"
  by pat_completeness auto
termination
  by (relation "measure (\<lambda>(s, i, n). nat (n - i))") (auto split: if_splits)

definition down :: "state \<Rightarrow> int \<Rightarrow> int \<Rightarrow> error + (state \<times> bool)" where
  "down s i0 n =
     (case down_loop s i0 n of
        Inl e \<Rightarrow> Inl e
      | Inr (s', i) \<Rightarrow> Inr (s', i > i0))"

definition heap_Push :: "state \<Rightarrow> ref \<Rightarrow> error + state" where
  "heap_Push s x =
     (case Push s x of
        Inl e \<Rightarrow> Inl e
      | Inr s1 \<Rightarrow> up s1 (Len s1 - 1))"

definition heap_Pop :: "state \<Rightarrow> error + (ref \<times> state)" where
  "heap_Pop s =
     (let n = Len s - 1
      in case Swap s 0 n of
           Inl e \<Rightarrow> Inl e
         | Inr s1 \<Rightarrow>
             (case down s1 0 n of
                Inl e \<Rightarrow> Inl e
              | Inr (s2, moved) \<Rightarrow> Pop s2))"

definition heap_Remove :: "state \<Rightarrow> int \<Rightarrow> error + (ref \<times> state)" where
  "heap_Remove s i =
     (let n = Len s - 1
      in case (if n \<noteq> i
               then (case Swap s i n of
                       Inl e \<Rightarrow> Inl e
                     | Inr s1 \<Rightarrow>
                         (case down s1 i n of
                            Inl e \<Rightarrow> Inl e
                          | Inr (s2, moved) \<Rightarrow> if \<not> moved then up s2 i else Inr s2))
               else Inr s) of
           Inl e \<Rightarrow> Inl e
         | Inr s3 \<Rightarrow> Pop s3)"

section \<open>update, changePriority and main\<close>

definition update :: "state \<Rightarrow> int \<Rightarrow> int \<Rightarrow> error + state" where
  "update s v p =
     (case heap_Pop s of
        Inl e \<Rightarrow> Inl e
      | Inr (item, s1) \<Rightarrow>
          heap_Push (s1\<lparr>mem := (mem s1)(item := (mem s1 item)\<lparr>item_value := v, priority := p\<rparr>)\<rparr>) item)"

definition changePriority :: "state \<Rightarrow> ref \<Rightarrow> int \<Rightarrow> error + state" where
  "changePriority s item p =
     (case heap_Remove s (index (mem s item)) of
        Inl e \<Rightarrow> Inl e
      | Inr (removed, s1) \<Rightarrow>
          heap_Push (s1\<lparr>mem := (mem s1)(item := (mem s1 item)\<lparr>priority := p\<rparr>)\<rparr>) item)"

text \<open>
  \<^verbatim>\<open>main\<close>: the two arrays, the loop that allocates and pushes one Item per slot of the
  capacity, and the loop that pops \<^verbatim>\<open>nItem\<close> times and prints priority and value. The
  model returns the printed pairs. The i-th allocation \<^verbatim>\<open>&Item{...}\<close> is the fresh
  address \<open>i\<close>; its \<^verbatim>\<open>index\<close> field starts at Go's zero value.
\<close>

definition nItem :: int where
  "nItem = 10"

definition priorities :: "int list" where
  "priorities = [77, 22, 44, 55, 11, 88, 33, 99, 0, 66]"

definition values_arr :: "int list" where
  "values_arr = [0, 1, 2, 3, 4, 5, 6, 7, 8, 9]"

definition array_at :: "int list \<Rightarrow> int \<Rightarrow> error + int" where
  "array_at xs i =
     (if 0 \<le> i \<and> i < int (length xs) then Inr (xs ! nat i) else Inl IndexOutOfRange)"

function push_loop :: "state \<Rightarrow> int \<Rightarrow> error + state" where
  "push_loop s i =
     (if i < int (cap s)
      then (case array_at values_arr i of
              Inl e \<Rightarrow> Inl e
            | Inr v \<Rightarrow>
                (case array_at priorities i of
                   Inl e \<Rightarrow> Inl e
                 | Inr p \<Rightarrow>
                     (let item = nat i;
                          s1 = s\<lparr>mem := (mem s)(item := \<lparr>item_value = v, priority = p, index = 0\<rparr>)\<rparr>
                      in case heap_Push s1 item of
                           Inl e \<Rightarrow> Inl e
                         | Inr s2 \<Rightarrow> push_loop s2 (i + 1))))
      else Inr s)"
  by pat_completeness auto
termination
  by (relation "measure (\<lambda>(s, i). nat (10 - i))")
     (auto simp: array_at_def values_arr_def split: if_splits)

function pop_loop :: "state \<Rightarrow> int \<Rightarrow> (int \<times> int) list \<Rightarrow> error + (int \<times> int) list" where
  "pop_loop s i out =
     (if i < nItem
      then (case heap_Pop s of
              Inl e \<Rightarrow> Inl e
            | Inr (item, s1) \<Rightarrow>
                pop_loop s1 (i + 1) (out @ [(priority (mem s1 item), item_value (mem s1 item))]))
      else Inr out)"
  by pat_completeness auto
termination
  by (relation "measure (\<lambda>(s, i, out). nat (nItem - i))") auto

definition main :: "(ref \<Rightarrow> Item) \<Rightarrow> error + (int \<times> int) list" where
  "main m =
     (case NewIntQueue m nItem of
        Inl e \<Rightarrow> Inl e
      | Inr s \<Rightarrow>
          (case push_loop s 0 of
             Inl e \<Rightarrow> Inl e
           | Inr s1 \<Rightarrow> pop_loop s1 0 []))"

section \<open>The properties the specification states\<close>

text \<open>
  The max-heap order over the occupied positions, the agreement of every stored Item's
  \<^verbatim>\<open>index\<close> field with its position, and the precondition the specification gives for
  operations that take an Item handle: its index is an occupied position whose occupant
  is that very Item.
\<close>

definition heap_order :: "state \<Rightarrow> bool" where
  "heap_order s \<longleftrightarrow>
     (\<forall>i \<in> {1..<length (pq s)}.
        priority (mem s (pq s ! i)) \<le> priority (mem s (pq s ! ((i - 1) div 2))))"

definition index_consistent :: "state \<Rightarrow> bool" where
  "index_consistent s \<longleftrightarrow>
     (\<forall>i \<in> {0..<length (pq s)}. index (mem s (pq s ! i)) = int i)"

definition attached :: "state \<Rightarrow> ref \<Rightarrow> bool" where
  "attached s x \<longleftrightarrow> in_range s (index (mem s x)) \<and> pq s ! nat (index (mem s x)) = x"

text \<open>
  The states a caller can reach. Between operations the caller may write the fields of an
  Item it holds and the queue does not (a new allocation, or an Item popped earlier);
  \<open>push\<close> covers this by storing any Item record at the detached address before it is
  pushed. Every operation is taken under its precondition and only when it returns.
\<close>

inductive reachable :: "state \<Rightarrow> bool" where
  new: "NewIntQueue m n = Inr s \<Longrightarrow> reachable s"
| push: "reachable s \<Longrightarrow> x \<notin> set (pq s) \<Longrightarrow>
         heap_Push (s\<lparr>mem := (mem s)(x := it)\<rparr>) x = Inr s' \<Longrightarrow> reachable s'"
| pop: "reachable s \<Longrightarrow> pq s \<noteq> [] \<Longrightarrow> heap_Pop s = Inr (x, s') \<Longrightarrow> reachable s'"
| changePriority: "reachable s \<Longrightarrow> attached s x \<Longrightarrow>
         changePriority s x p = Inr s' \<Longrightarrow> reachable s'"
| update: "reachable s \<Longrightarrow> pq s \<noteq> [] \<Longrightarrow> update s v p = Inr s' \<Longrightarrow> reachable s'"

section \<open>Auxiliary notions for the proofs\<close>

text \<open>
  \<open>key s k\<close> is the priority found at position \<open>k\<close>; \<open>swapf\<close> exchanges two entries of
  such a function. \<open>heap_upto\<close> is the heap order of the first \<open>n\<close> positions,
  \<open>heap_but\<close> the same with the edge into position \<open>x\<close> left open; \<open>up_inv\<close> and
  \<open>down_inv\<close> are what holds each time round the loops \<^verbatim>\<open>up\<close> and \<^verbatim>\<open>down\<close>.
\<close>

definition key :: "state \<Rightarrow> nat \<Rightarrow> int" where
  "key s k = priority (mem s (pq s ! k))"

definition swapf :: "(nat \<Rightarrow> int) \<Rightarrow> nat \<Rightarrow> nat \<Rightarrow> nat \<Rightarrow> int" where
  "swapf f i j = f(i := f j, j := f i)"

definition idx_ok :: "state \<Rightarrow> bool" where
  "idx_ok s \<longleftrightarrow> distinct (pq s) \<and> index_consistent s"

definition heap_upto :: "(nat \<Rightarrow> int) \<Rightarrow> nat \<Rightarrow> bool" where
  "heap_upto f n \<longleftrightarrow> (\<forall>c. 0 < c \<and> c < n \<longrightarrow> f c \<le> f ((c - 1) div 2))"

definition heap_but :: "(nat \<Rightarrow> int) \<Rightarrow> nat \<Rightarrow> nat \<Rightarrow> bool" where
  "heap_but f n x \<longleftrightarrow> (\<forall>c. 0 < c \<and> c < n \<and> c \<noteq> x \<longrightarrow> f c \<le> f ((c - 1) div 2))"

definition up_inv :: "(nat \<Rightarrow> int) \<Rightarrow> nat \<Rightarrow> nat \<Rightarrow> bool" where
  "up_inv f n j \<longleftrightarrow>
     heap_but f n j \<and>
     (\<forall>c. 0 < c \<and> c < n \<and> (c - 1) div 2 = j \<and> 0 < j \<longrightarrow> f c \<le> f ((j - 1) div 2))"

definition down_inv :: "(nat \<Rightarrow> int) \<Rightarrow> nat \<Rightarrow> nat \<Rightarrow> nat \<Rightarrow> bool" where
  "down_inv f n i x \<longleftrightarrow>
     x \<le> i \<and>
     (\<forall>c. 0 < c \<and> c < n \<and> (c - 1) div 2 \<noteq> i \<and> c \<noteq> x \<longrightarrow> f c \<le> f ((c - 1) div 2)) \<and>
     (\<forall>c. 0 < c \<and> c < n \<and> (c - 1) div 2 = i \<and> 0 < i \<longrightarrow> f c \<le> f ((i - 1) div 2)) \<and>
     (i \<noteq> x \<and> 0 < x \<longrightarrow> f x \<le> f ((x - 1) div 2))"

text \<open>
  \<open>frame s t\<close>: the loops only permute the queue and only write \<^verbatim>\<open>index\<close> fields of
  Items that are in it. \<open>invar\<close> collects what every reachable state satisfies.
\<close>

definition frame :: "state \<Rightarrow> state \<Rightarrow> bool" where
  "frame s t \<longleftrightarrow>
     length (pq t) = length (pq s) \<and> cap t = cap s \<and> set (pq t) = set (pq s) \<and>
     (\<forall>r. priority (mem t r) = priority (mem s r) \<and> item_value (mem t r) = item_value (mem s r)) \<and>
     (\<forall>r. r \<notin> set (pq s) \<longrightarrow> mem t r = mem s r)"

definition invar :: "state \<Rightarrow> bool" where
  "invar s \<longleftrightarrow> length (pq s) \<le> cap s \<and> idx_ok s \<and> heap_order s"

text \<open>Concrete states for instances: a queue of capacity 2 and two pushes.\<close>

definition zero_mem :: "ref \<Rightarrow> Item" where
  "zero_mem = (\<lambda>r. \<lparr>item_value = 0, priority = 0, index = 0\<rparr>)"

definition demo0 :: state where
  "demo0 = projr (NewIntQueue zero_mem 2)"

definition demo1 :: state where
  "demo1 = projr (heap_Push (demo0\<lparr>mem := (mem demo0)(0 := \<lparr>item_value = 10, priority = 5, index = 0\<rparr>)\<rparr>) 0)"

definition demo2 :: state where
  "demo2 = projr (heap_Push (demo1\<lparr>mem := (mem demo1)(1 := \<lparr>item_value = 11, priority = 9, index = 0\<rparr>)\<rparr>) 1)"

text \<open>
  The specification's description of updatePriority, word for word: remove the Item
  (at the position its \<^verbatim>\<open>index\<close> names), set its value and its priority, push the same
  Item back. It is compared with \<open>changePriority\<close> and \<open>update\<close> below.
\<close>

definition spec_updatePriority :: "state \<Rightarrow> ref \<Rightarrow> int \<Rightarrow> int \<Rightarrow> error + state" where
  "spec_updatePriority s item newValue newPriority =
     (case heap_Remove s (index (mem s item)) of
        Inl e \<Rightarrow> Inl e
      | Inr (removed, s1) \<Rightarrow>
          heap_Push
            (s1\<lparr>mem := (mem s1)(item := (mem s1 item)\<lparr>item_value := newValue, priority := newPriority\<rparr>)\<rparr>)
            item)"

section \<open>Unfolding the two loops\<close>

declare up.simps [simp del] down_loop.simps [simp del]

lemma up_elim [consumes 1, case_names root stop swap]:
  assumes "up s j = Inr s'"
  obtains (root) "go_div (j - 1) 2 = j" "s' = s"
  | (stop) "go_div (j - 1) 2 \<noteq> j" "Less s j (go_div (j - 1) 2) = Inr False" "s' = s"
  | (swap) s1 where "go_div (j - 1) 2 \<noteq> j" "Less s j (go_div (j - 1) 2) = Inr True"
      "Swap s (go_div (j - 1) 2) j = Inr s1" "up s1 (go_div (j - 1) 2) = Inr s'"
  using assms up.simps [of s j] by (auto simp: Let_def split: if_splits sum.splits)

lemma down_loop_elim [consumes 1, case_names leaf stop swap]:
  assumes "down_loop s i n = Inr (s', i')"
  obtains (leaf) "2 * i + 1 \<ge> n \<or> 2 * i + 1 < 0" "s' = s" "i' = i"
  | (stop) r j where "\<not> (2 * i + 1 \<ge> n \<or> 2 * i + 1 < 0)"
      "(if 2 * i + 1 + 1 < n then Less s (2 * i + 1 + 1) (2 * i + 1) else Inr False) = Inr r"
      "j = (if r then 2 * i + 1 + 1 else 2 * i + 1)"
      "Less s j i = Inr False" "s' = s" "i' = i"
  | (swap) r j s1 where "\<not> (2 * i + 1 \<ge> n \<or> 2 * i + 1 < 0)"
      "(if 2 * i + 1 + 1 < n then Less s (2 * i + 1 + 1) (2 * i + 1) else Inr False) = Inr r"
      "j = (if r then 2 * i + 1 + 1 else 2 * i + 1)"
      "Less s j i = Inr True"
      "Swap s i j = Inr s1"
      "down_loop s1 j n = Inr (s', i')"
proof (cases "2 * i + 1 \<ge> n \<or> 2 * i + 1 < 0")
  case True
  then have "down_loop s i n = Inr (s, i)"
    by (simp add: down_loop.simps [of s i n])
  with assms have "s' = s" "i' = i" by simp_all
  with True show ?thesis by (rule leaf)
next
  case out: False
  from assms have unf:
    "(if 2 * i + 1 \<ge> n \<or> 2 * i + 1 < 0 then Inr (s, i)
      else (case (if 2 * i + 1 + 1 < n then Less s (2 * i + 1 + 1) (2 * i + 1) else Inr False) of
              Inl e \<Rightarrow> Inl e
            | Inr r \<Rightarrow>
                (case Less s (if r then 2 * i + 1 + 1 else 2 * i + 1) i of
                   Inl e \<Rightarrow> Inl e
                 | Inr b \<Rightarrow>
                     if \<not> b then Inr (s, i)
                     else (case Swap s i (if r then 2 * i + 1 + 1 else 2 * i + 1) of
                             Inl e \<Rightarrow> Inl e
                           | Inr s1 \<Rightarrow> down_loop s1 (if r then 2 * i + 1 + 1 else 2 * i + 1) n)))) =
     Inr (s', i')"
    unfolding down_loop.simps [of s i n] Let_def .
  obtain r where
    r: "(if 2 * i + 1 + 1 < n then Less s (2 * i + 1 + 1) (2 * i + 1) else Inr False) = Inr r"
  proof (cases "if 2 * i + 1 + 1 < n then Less s (2 * i + 1 + 1) (2 * i + 1) else Inr False")
    case (Inl e)
    with unf out show ?thesis by (simp only: if_False sum.case) simp
  next
    case (Inr r)
    then show ?thesis by (rule that)
  qed
  define j where "j = (if r then 2 * i + 1 + 1 else 2 * i + 1)"
  from unf out r have
    rest: "(case Less s j i of Inl e \<Rightarrow> Inl e
            | Inr b \<Rightarrow> if \<not> b then Inr (s, i)
                       else (case Swap s i j of Inl e \<Rightarrow> Inl e
                             | Inr s1 \<Rightarrow> down_loop s1 j n)) = Inr (s', i')"
    by (simp only: if_False sum.case j_def)
  then obtain b where b: "Less s j i = Inr b"
    by (cases "Less s j i") auto
  show ?thesis
  proof (cases b)
    case False
    with rest b have "s' = s" "i' = i" "Less s j i = Inr False" by auto
    then show ?thesis using stop [OF out r j_def] by blast
  next
    case True
    with rest b obtain s1 where "Swap s i j = Inr s1" "down_loop s1 j n = Inr (s', i')"
      by (cases "Swap s i j") auto
    moreover from b True have "Less s j i = Inr True" by simp
    ultimately show ?thesis using swap [OF out r j_def] by blast
  qed
qed

lemma up_preserves:
  assumes "up s j = Inr s'" and "I s"
    and "\<And>t i j t'. I t \<Longrightarrow> Swap t i j = Inr t' \<Longrightarrow> I t'"
  shows "I s'"
  using assms(1,2)
proof (induction s j rule: up.induct)
  case (1 s j)
  from "1.prems"(1) show ?case
  proof (cases rule: up_elim)
    case root
    with "1.prems" show ?thesis by simp
  next
    case stop
    with "1.prems" show ?thesis by simp
  next
    case (swap s1)
    have "I s1" using assms(3) "1.prems"(2) swap(3) by blast
    with "1.IH" [OF refl swap(1) swap(2) _ swap(3) swap(4)] show ?thesis by simp
  qed
qed

lemma down_loop_preserves:
  assumes "down_loop s i n = Inr (s', i')" and "I s"
    and "\<And>t i j t'. I t \<Longrightarrow> Swap t i j = Inr t' \<Longrightarrow> I t'"
  shows "I s'"
  using assms(1,2)
proof (induction s i n rule: down_loop.induct)
  case (1 s i n)
  from "1.prems"(1) show ?case
  proof (cases rule: down_loop_elim)
    case leaf
    with "1.prems" show ?thesis by simp
  next
    case (stop r j)
    with "1.prems" show ?thesis by simp
  next
    case (swap r j s1)
    have "I s1" using assms(3) "1.prems"(2) swap(5) by blast
    with "1.IH" [OF refl swap(1) swap(2) swap(3) swap(4) _ swap(5) swap(6)]
    show ?thesis by simp
  qed
qed

section \<open>Swap, Less and the heap order along the loops\<close>

lemma Swap_Inr:
  assumes "Swap s i j = Inr s'"
  shows "in_range s i" "in_range s j"
    "pq s' = (pq s)[nat i := pq s ! nat j, nat j := pq s ! nat i]"
    "cap s' = cap s"
    "mem s' = (mem s)(pq s ! nat j := (mem s (pq s ! nat j))\<lparr>index := i\<rparr>,
                      pq s ! nat i := (((mem s)(pq s ! nat j := (mem s (pq s ! nat j))\<lparr>index := i\<rparr>)) (pq s ! nat i))\<lparr>index := j\<rparr>)"
  using assms
  by (auto simp: Swap_def Let_def set_index_def in_range_def Len_def nth_list_update
      split: if_splits)

lemma Swap_succeeds: "in_range s i \<Longrightarrow> in_range s j \<Longrightarrow> \<exists>s'. Swap s i j = Inr s'"
  by (simp add: Swap_def Let_def)

lemma Swap_length: "Swap s i j = Inr s' \<Longrightarrow> length (pq s') = length (pq s)"
  by (simp add: Swap_Inr(3))

lemma Swap_Len: "Swap s i j = Inr s' \<Longrightarrow> Len s' = Len s"
  by (simp add: Len_def Swap_length)

lemma Swap_fields:
  "Swap s i j = Inr s' \<Longrightarrow>
   priority (mem s' r) = priority (mem s r) \<and> item_value (mem s' r) = item_value (mem s r)"
  by (simp add: Swap_Inr(5))

lemma Swap_key:
  assumes "Swap s i j = Inr s'"
  shows "key s' = swapf (key s) (nat i) (nat j)"
proof
  fix k
  from assms have r: "nat i < length (pq s)" "nat j < length (pq s)"
    using Swap_Inr(1,2) [OF assms] by (auto simp: in_range_def Len_def)
  show "key s' k = swapf (key s) (nat i) (nat j) k"
    using r by (auto simp: key_def swapf_def Swap_fields [OF assms] Swap_Inr(3) [OF assms] nth_list_update)
qed

lemma Swap_set: "Swap s i j = Inr s' \<Longrightarrow> set (pq s') = set (pq s)"
proof -
  assume a: "Swap s i j = Inr s'"
  then have "nat i < length (pq s)" "nat j < length (pq s)"
    using Swap_Inr(1,2) [OF a] by (auto simp: in_range_def Len_def)
  then show ?thesis by (simp add: Swap_Inr(3) [OF a])
qed

lemma Swap_idx_ok:
  assumes "Swap s i j = Inr s'" "idx_ok s"
  shows "idx_ok s'"
proof -
  from assms have r: "nat i < length (pq s)" "nat j < length (pq s)" "0 \<le> i" "0 \<le> j"
    using Swap_Inr(1,2) [OF assms(1)] by (auto simp: in_range_def Len_def)
  from assms(2) have d: "distinct (pq s)"
    and ix: "\<And>k. k < length (pq s) \<Longrightarrow> index (mem s (pq s ! k)) = int k"
    by (auto simp: idx_ok_def index_consistent_def)
  have d': "distinct (pq s')"
    using d r by (simp add: Swap_Inr(3) [OF assms(1)] distinct_swap)
  have "index (mem s' (pq s' ! k)) = int k" if k: "k < length (pq s)" for k
    using k r d ix [OF k]
    by (auto simp: Swap_Inr(3,5) [OF assms(1)] nth_list_update nth_eq_iff_index_eq)
  with d' show ?thesis
    by (simp add: idx_ok_def index_consistent_def Swap_length [OF assms(1)])
qed

lemma heap_upto_root:
  assumes "heap_upto f n"
  shows "c < n \<Longrightarrow> f c \<le> f 0"
proof (induction c rule: less_induct)
  case (less c)
  show ?case
  proof (cases "c = 0")
    case True
    then show ?thesis by simp
  next
    case False
    then have p: "(c - 1) div 2 < c" by arith
    from False less.prems assms have "f c \<le> f ((c - 1) div 2)"
      by (simp add: heap_upto_def)
    also from p less.prems have "f ((c - 1) div 2) \<le> f 0"
      by (intro less.IH) auto
    finally show ?thesis .
  qed
qed

lemma up_inv_stop:
  assumes "up_inv f n j" "j = 0 \<or> f j \<le> f ((j - 1) div 2)"
  shows "heap_upto f n"
  unfolding heap_upto_def
proof (intro allI impI)
  fix c
  assume "0 < c \<and> c < n"
  with assms show "f c \<le> f ((c - 1) div 2)"
    by (cases "c = j") (auto simp: up_inv_def heap_but_def)
qed

lemma up_inv_step:
  assumes inv: "up_inv f n j" and j: "0 < j" "j < n" and lt: "f ((j - 1) div 2) < f j"
  shows "up_inv (swapf f ((j - 1) div 2) j) n ((j - 1) div 2)"
proof -
  define i where "i = (j - 1) div 2"
  define g where "g = swapf f i j"
  from j have ij: "i < j" unfolding i_def by arith
  from lt have lt': "f i < f j" by (simp add: i_def)
  have pj: "(j - 1) div 2 = i" by (simp add: i_def)
  have gi: "g i = f j" and gj: "g j = f i" and go: "\<And>k. k \<noteq> i \<Longrightarrow> k \<noteq> j \<Longrightarrow> g k = f k"
    using ij by (auto simp: g_def swapf_def)
  from inv have hb: "\<And>c. 0 < c \<Longrightarrow> c < n \<Longrightarrow> c \<noteq> j \<Longrightarrow> f c \<le> f ((c - 1) div 2)"
    and gp: "\<And>c. 0 < c \<Longrightarrow> c < n \<Longrightarrow> (c - 1) div 2 = j \<Longrightarrow> f c \<le> f i"
    using j by (auto simp: up_inv_def heap_but_def i_def)
  have 1: "g c \<le> g ((c - 1) div 2)" if c: "0 < c" "c < n" "c \<noteq> i" for c
  proof -
    from c have pc: "(c - 1) div 2 < c" by arith
    consider "c = j" | "c \<noteq> j" "(c - 1) div 2 = j" | "c \<noteq> j" "(c - 1) div 2 = i"
      | "c \<noteq> j" "(c - 1) div 2 \<noteq> j" "(c - 1) div 2 \<noteq> i" by blast
    then show ?thesis
    proof cases
      case 1
      then show ?thesis using gi gj lt' pj by simp
    next
      case 2
      with c pc have "g c = f c" by (intro go) auto
      with 2 gj gp [OF c(1,2)] show ?thesis by simp
    next
      case 3
      with c have "g c = f c" by (intro go) auto
      moreover from hb [OF c(1,2)] 3 have "f c \<le> f i" by simp
      ultimately show ?thesis using 3 gi lt' by simp
    next
      case 4
      with c have "g c = f c" by (intro go) auto
      moreover from 4 have "g ((c - 1) div 2) = f ((c - 1) div 2)" by (intro go) auto
      ultimately show ?thesis using hb [OF c(1,2)] 4 by simp
    qed
  qed
  have 2: "g c \<le> g ((i - 1) div 2)" if c: "0 < c" "c < n" "(c - 1) div 2 = i" "0 < i" for c
  proof -
    from c have pi: "(i - 1) div 2 < i" by arith
    with ij have gpi: "g ((i - 1) div 2) = f ((i - 1) div 2)" by (intro go) auto
    from c j ij have fi: "f i \<le> f ((i - 1) div 2)" by (intro hb) auto
    show ?thesis
    proof (cases "c = j")
      case True
      with gj gpi fi show ?thesis by simp
    next
      case False
      moreover from c have "c \<noteq> i" by arith
      ultimately have "g c = f c" by (intro go) auto
      moreover from hb [OF c(1,2) False] c have "f c \<le> f i" by simp
      ultimately show ?thesis using gpi fi by simp
    qed
  qed
  from 1 2 show ?thesis
    unfolding up_inv_def heap_but_def g_def i_def by blast
qed

lemma down_inv_stop:
  assumes inv: "down_inv f n i x"
    and stop: "\<And>c. 0 < c \<Longrightarrow> c < n \<Longrightarrow> (c - 1) div 2 = i \<Longrightarrow> f c \<le> f i"
  shows "heap_but f n x" and "i \<noteq> x \<Longrightarrow> heap_upto f n"
proof -
  have 1: "f c \<le> f ((c - 1) div 2)" if "0 < c" "c < n" "c \<noteq> x" for c
  proof (cases "(c - 1) div 2 = i")
    case True
    with stop [OF that(1,2)] show ?thesis by simp
  next
    case False
    with inv that show ?thesis by (simp add: down_inv_def)
  qed
  then show "heap_but f n x" by (simp add: heap_but_def)
  assume "i \<noteq> x"
  with inv have "0 < x \<Longrightarrow> f x \<le> f ((x - 1) div 2)" by (simp add: down_inv_def)
  with 1 show "heap_upto f n" unfolding heap_upto_def by metis
qed

lemma down_inv_step:
  assumes inv: "down_inv f n i x"
    and j: "j = 2 * i + 1 \<or> j = 2 * i + 2" "j < n"
    and big: "\<And>c. 0 < c \<Longrightarrow> c < n \<Longrightarrow> (c - 1) div 2 = i \<Longrightarrow> f c \<le> f j"
    and lt: "f i < f j"
  shows "down_inv (swapf f i j) n j x"
proof -
  define g where "g = swapf f i j"
  from j have ij: "i < j" and pj: "(j - 1) div 2 = i" by auto
  have gi: "g i = f j" and gj: "g j = f i" and go: "\<And>k. k \<noteq> i \<Longrightarrow> k \<noteq> j \<Longrightarrow> g k = f k"
    using ij by (auto simp: g_def swapf_def)
  from inv have xi: "x \<le> i"
    and hb: "\<And>c. 0 < c \<Longrightarrow> c < n \<Longrightarrow> (c - 1) div 2 \<noteq> i \<Longrightarrow> c \<noteq> x \<Longrightarrow> f c \<le> f ((c - 1) div 2)"
    and gp: "\<And>c. 0 < c \<Longrightarrow> c < n \<Longrightarrow> (c - 1) div 2 = i \<Longrightarrow> 0 < i \<Longrightarrow> f c \<le> f ((i - 1) div 2)"
    and ex: "i \<noteq> x \<Longrightarrow> 0 < x \<Longrightarrow> f x \<le> f ((x - 1) div 2)"
    by (auto simp: down_inv_def)
  have jpos: "0 < j" using ij by simp
  have fj_gp: "f j \<le> f ((i - 1) div 2)" if "0 < i"
    using gp [OF jpos j(2) pj that] .
  have gpar: "g ((k - 1) div 2) = f ((k - 1) div 2)" if "0 < k" "k \<le> i" for k
  proof -
    from that have "(k - 1) div 2 < k" by arith
    with that ij show ?thesis by (intro go) auto
  qed
  have 1: "g c \<le> g ((c - 1) div 2)" if c: "0 < c" "c < n" "(c - 1) div 2 \<noteq> j" "c \<noteq> x" for c
  proof -
    consider "c = i" | "c = j" | "c \<noteq> i" "c \<noteq> j" "(c - 1) div 2 = i"
      | "c \<noteq> i" "c \<noteq> j" "(c - 1) div 2 \<noteq> i" by blast
    then show ?thesis
    proof cases
      case 1
      with c fj_gp gi gpar [of i] show ?thesis by simp
    next
      case 2
      with gi gj lt pj show ?thesis by simp
    next
      case 3
      then have "g c = f c" by (intro go) auto
      with 3 gi big [OF c(1,2)] show ?thesis by simp
    next
      case 4
      then have "g c = f c" by (intro go) auto
      moreover from 4 c have "g ((c - 1) div 2) = f ((c - 1) div 2)" by (intro go) auto
      ultimately show ?thesis using hb [OF c(1,2)] 4 c by simp
    qed
  qed
  have 2: "g c \<le> g ((j - 1) div 2)" if c: "0 < c" "c < n" "(c - 1) div 2 = j" for c
  proof -
    from c have cj: "j < c" by arith
    with ij have "g c = f c" by (intro go) auto
    moreover from cj ij xi c have "f c \<le> f ((c - 1) div 2)" by (intro hb) auto
    ultimately show ?thesis using c gi pj by simp
  qed
  have 3: "g x \<le> g ((x - 1) div 2)" if "0 < x"
  proof (cases "x = i")
    case True
    with that fj_gp gi gpar [of i] show ?thesis by simp
  next
    case False
    with xi ij have "g x = f x" by (intro go) auto
    with gpar [OF that xi] ex [OF _ that] False show ?thesis by simp
  qed
  from xi ij have "x \<le> j" by simp
  with 1 2 3 show ?thesis
    unfolding down_inv_def g_def by blast
qed

lemma down_inv_init:
  assumes "heap_upto f (Suc n)" "i \<le> n"
  shows "down_inv (swapf f i n) n i i"
proof -
  define g where "g = swapf f i n"
  have go: "\<And>k. k \<noteq> i \<Longrightarrow> k < n \<Longrightarrow> g k = f k"
    by (auto simp: g_def swapf_def)
  from assms have h: "\<And>c. 0 < c \<Longrightarrow> c < n \<Longrightarrow> f c \<le> f ((c - 1) div 2)"
    by (simp add: heap_upto_def)
  have 1: "g c \<le> g ((c - 1) div 2)" if c: "0 < c" "c < n" "(c - 1) div 2 \<noteq> i" "c \<noteq> i" for c
  proof -
    from c have "(c - 1) div 2 < n" by arith
    with c go [of c] go [of "(c - 1) div 2"] h [of c] show ?thesis by simp
  qed
  have 2: "g c \<le> g ((i - 1) div 2)" if c: "0 < c" "c < n" "(c - 1) div 2 = i" "0 < i" for c
  proof -
    from c have ic: "i < c" by arith
    from c have pi: "(i - 1) div 2 < i" by arith
    from ic c have "f i \<le> f ((i - 1) div 2)" by (intro h) auto
    moreover have "f c \<le> f i" using h [OF c(1,2)] c by simp
    moreover have "g c = f c" using ic c by (intro go) auto
    moreover have "g ((i - 1) div 2) = f ((i - 1) div 2)" using pi ic c by (intro go) auto
    ultimately show ?thesis by simp
  qed
  from 1 2 show ?thesis unfolding down_inv_def g_def by blast
qed

lemma down_inv_up_inv: "down_inv f n i x \<Longrightarrow> heap_but f n i \<Longrightarrow> up_inv f n i"
  unfolding down_inv_def up_inv_def by blast

lemma Less_Inr:
  assumes "Less s a b = Inr r"
  shows "in_range s a" "in_range s b" "r \<longleftrightarrow> key s (nat b) < key s (nat a)"
  using assms by (auto simp: Less_def key_def split: if_splits)

lemma Less_succeeds: "in_range s a \<Longrightarrow> in_range s b \<Longrightarrow> \<exists>r. Less s a b = Inr r"
  by (simp add: Less_def)

lemma go_div_pos: "0 < j \<Longrightarrow> go_div (j - 1) 2 = (j - 1) div 2"
  by (cases "j = 1") (auto simp: go_div_def sgn_if)

lemma go_div_root:
  assumes "0 \<le> j" "go_div (j - 1) 2 = j"
  shows "j = 0"
proof (rule ccontr)
  assume "j \<noteq> 0"
  with assms(1) have "0 < j" by simp
  from go_div_pos [OF this] assms(2) have "(j - 1) div 2 = j" by simp
  with \<open>0 < j\<close> show False by arith
qed

lemma go_div_parent:
  assumes "0 \<le> j" "go_div (j - 1) 2 \<noteq> j"
  shows "0 < j" "0 \<le> go_div (j - 1) 2" "go_div (j - 1) 2 < j"
    "nat (go_div (j - 1) 2) = (nat j - 1) div 2"
proof -
  from assms show "0 < j" by (cases "j = 0") (auto simp: go_div_def sgn_if)
  note e = go_div_pos [OF this]
  from \<open>0 < j\<close> show "0 \<le> go_div (j - 1) 2" "go_div (j - 1) 2 < j"
    unfolding e by arith+
  from \<open>0 < j\<close> show "nat (go_div (j - 1) 2) = (nat j - 1) div 2"
    unfolding e by (simp add: nat_div_distrib nat_diff_distrib)
qed

lemma up_heap:
  assumes "up s j = Inr s'" "0 \<le> j" "nat j < n" "n \<le> length (pq s)"
    "up_inv (key s) n (nat j)"
  shows "heap_upto (key s') n"
  using assms
proof (induction s j rule: up.induct)
  case (1 s j)
  let ?i = "go_div (j - 1) 2"
  from "1.prems"(1) show ?case
  proof (cases rule: up_elim)
    case root
    with "1.prems"(2) have "j = 0" by (simp add: go_div_root)
    with "1.prems"(5) root show ?thesis by (auto intro: up_inv_stop)
  next
    case stop
    note p = go_div_parent [OF "1.prems"(2) stop(1)]
    from Less_Inr(3) [OF stop(2)] p(4)
    have "key s (nat j) \<le> key s ((nat j - 1) div 2)" by simp
    with "1.prems"(5) stop show ?thesis by (auto intro: up_inv_stop)
  next
    case (swap s1)
    note p = go_div_parent [OF "1.prems"(2) swap(1)]
    from Less_Inr(3) [OF swap(2)] p(4)
    have lt: "key s ((nat j - 1) div 2) < key s (nat j)" by simp
    from p(1) have jpos: "0 < nat j" by simp
    have "up_inv (key s1) n (nat ?i)"
      using up_inv_step [OF "1.prems"(5) jpos "1.prems"(3) lt]
      by (simp add: Swap_key [OF swap(3)] p(4))
    moreover from p "1.prems"(3) have "nat ?i < n" by simp
    moreover from "1.prems"(4) have "n \<le> length (pq s1)" by (simp add: Swap_length [OF swap(3)])
    ultimately show ?thesis
      using "1.IH" [OF refl swap(1) swap(2) _ swap(3) swap(4) p(2)] by simp
  qed
qed

lemma up_succeeds:
  assumes "in_range s j"
  shows "\<exists>s'. up s j = Inr s'"
  using assms
proof (induction s j rule: up.induct)
  case (1 s j)
  let ?i = "go_div (j - 1) 2"
  from "1.prems" have j0: "0 \<le> j" by (simp add: in_range_def)
  show ?case
  proof (cases "?i = j")
    case True
    then show ?thesis by (simp add: up.simps [of s j])
  next
    case False
    note p = go_div_parent [OF j0 False]
    from p "1.prems" have ri: "in_range s ?i" by (simp add: in_range_def)
    with "1.prems" obtain b where b: "Less s j ?i = Inr b"
      using Less_succeeds by blast
    show ?thesis
    proof (cases b)
      case False
      with b \<open>?i \<noteq> j\<close> show ?thesis by (simp add: up.simps [of s j])
    next
      case True
      from ri "1.prems" obtain s1 where s1: "Swap s ?i j = Inr s1"
        using Swap_succeeds by blast
      from ri have "in_range s1 ?i" by (simp add: in_range_def Swap_Len [OF s1])
      from "1.IH" [OF refl False b _ s1 this] True obtain s' where "up s1 ?i = Inr s'"
        by auto
      with b True s1 False show ?thesis by (simp add: up.simps [of s j])
    qed
  qed
qed

lemma larger_child:
  assumes out: "\<not> (2 * i + 1 \<ge> n \<or> 2 * i + 1 < 0)"
    and r: "(if 2 * i + 1 + 1 < n then Less s (2 * i + 1 + 1) (2 * i + 1) else Inr False) = Inr r"
    and j: "j = (if r then 2 * i + 1 + 1 else 2 * i + 1)"
  shows "0 \<le> i" "i < j" "j < n"
    "nat j = 2 * nat i + 1 \<or> nat j = 2 * nat i + 2"
    "\<And>c. 0 < c \<Longrightarrow> c < nat n \<Longrightarrow> (c - 1) div 2 = nat i \<Longrightarrow> key s c \<le> key s (nat j)"
proof -
  from out show i0: "0 \<le> i" by arith
  from r have rn: "r \<Longrightarrow> 2 * i + 1 + 1 < n" by (auto split: if_splits)
  from i0 j show "i < j" by (auto split: if_splits)
  from out j rn show "j < n" by (auto split: if_splits)
  have n1: "nat (2 * i + 1) = 2 * nat i + 1" and n2: "nat (2 * i + 1 + 1) = 2 * nat i + 2"
    using i0 by (simp_all add: nat_add_distrib nat_mult_distrib)
  from j n1 n2 show "nat j = 2 * nat i + 1 \<or> nat j = 2 * nat i + 2"
    by (auto split: if_splits)
  fix c
  assume c: "0 < c" "c < nat n" "(c - 1) div 2 = nat i"
  then have cc: "c = 2 * nat i + 1 \<or> c = 2 * nat i + 2" by arith
  show "key s c \<le> key s (nat j)"
  proof (cases "2 * i + 1 + 1 < n")
    case True
    with r have "r \<longleftrightarrow> key s (2 * nat i + 1) < key s (2 * nat i + 2)"
      using Less_Inr(3) [of s "2 * i + 1 + 1" "2 * i + 1" r] n1 n2 by simp
    with cc j n1 n2 show ?thesis by (auto split: if_splits)
  next
    case False
    with r have "\<not> r" by simp
    moreover from False c i0 have "c = 2 * nat i + 1" using cc by (auto simp: nat_less_iff)
    ultimately show ?thesis using j n1 by simp
  qed
qed

lemma down_loop_mono:
  assumes "down_loop s i n = Inr (s', i')"
  shows "i \<le> i'" "i' = i \<Longrightarrow> s' = s"
proof -
  have "i \<le> i' \<and> (i' = i \<longrightarrow> s' = s)"
    using assms
  proof (induction s i n rule: down_loop.induct)
    case (1 s i n)
    from "1.prems"(1) show ?case
    proof (cases rule: down_loop_elim)
      case leaf
      then show ?thesis by simp
    next
      case (stop r j)
      then show ?thesis by simp
    next
      case (swap r j s1)
      note lc = larger_child [OF swap(1,2,3)]
      from "1.IH" [OF refl swap(1) swap(2) swap(3) swap(4) _ swap(5) swap(6)]
      have "j \<le> i'" by simp
      with lc(2) show ?thesis by simp
    qed
  qed
  then show "i \<le> i'" "i' = i \<Longrightarrow> s' = s" by simp_all
qed

lemma down_heap:
  assumes "down_loop s i n = Inr (s', i')" "0 \<le> i" "nat n \<le> length (pq s)"
    "down_inv (key s) (nat n) (nat i) x"
  shows "heap_but (key s') (nat n) x \<and> (nat i' \<noteq> x \<longrightarrow> heap_upto (key s') (nat n))"
  using assms
proof (induction s i n rule: down_loop.induct)
  case (1 s i n)
  from "1.prems"(4) have xi: "x \<le> nat i" by (simp add: down_inv_def)
  from "1.prems"(1) show ?case
  proof (cases rule: down_loop_elim)
    case leaf
    with "1.prems"(2) have "n \<le> 2 * i + 1" by simp
    then have "\<And>c. 0 < c \<Longrightarrow> c < nat n \<Longrightarrow> (c - 1) div 2 = nat i \<Longrightarrow> key s c \<le> key s (nat i)"
      using "1.prems"(2) by arith
    from down_inv_stop [OF "1.prems"(4) this] leaf show ?thesis by simp
  next
    case (stop r j)
    note lc = larger_child [OF stop(1,2,3)]
    from Less_Inr(3) [OF stop(4)] have "key s (nat j) \<le> key s (nat i)" by simp
    with lc(5) have "\<And>c. 0 < c \<Longrightarrow> c < nat n \<Longrightarrow> (c - 1) div 2 = nat i \<Longrightarrow> key s c \<le> key s (nat i)"
      by force
    from down_inv_stop [OF "1.prems"(4) this] stop show ?thesis by simp
  next
    case (swap r j s1)
    note lc = larger_child [OF swap(1,2,3)]
    from Less_Inr(3) [OF swap(4)] have lt: "key s (nat i) < key s (nat j)" by simp
    from lc(1,2,3) have jn: "nat j < nat n" by simp
    have inv: "down_inv (key s1) (nat n) (nat j) x"
      using down_inv_step [OF "1.prems"(4) lc(4) jn lc(5) lt]
      by (simp add: Swap_key [OF swap(5)])
    from lc have j0: "0 \<le> j" by simp
    from "1.prems"(3) have len: "nat n \<le> length (pq s1)" by (simp add: Swap_length [OF swap(5)])
    from "1.IH" [OF refl swap(1) swap(2) swap(3) swap(4) _ swap(5) swap(6) j0 len inv]
    show ?thesis by simp
  qed
qed

lemma down_loop_succeeds:
  assumes "0 \<le> i" "n \<le> Len s"
  shows "\<exists>s' i'. down_loop s i n = Inr (s', i')"
  using assms
proof (induction s i n rule: down_loop.induct)
  case (1 s i n)
  show ?case
  proof (cases "2 * i + 1 \<ge> n \<or> 2 * i + 1 < 0")
    case True
    then show ?thesis by (simp add: down_loop.simps [of s i n])
  next
    case out: False
    with "1.prems" have r1: "in_range s (2 * i + 1)" by (simp add: in_range_def)
    have "\<exists>r. (if 2 * i + 1 + 1 < n then Less s (2 * i + 1 + 1) (2 * i + 1) else Inr False) = Inr r"
      using r1 "1.prems" by (auto simp: in_range_def intro!: Less_succeeds)
    then obtain r where
      r: "(if 2 * i + 1 + 1 < n then Less s (2 * i + 1 + 1) (2 * i + 1) else Inr False) = Inr r" ..
    define j where "j = (if r then 2 * i + 1 + 1 else 2 * i + 1)"
    note lc = larger_child [OF out r j_def]
    from lc "1.prems" have rj: "in_range s j" and ri: "in_range s i"
      by (simp_all add: in_range_def)
    then obtain b where b: "Less s j i = Inr b" using Less_succeeds by blast
    have unf: "down_loop s i n =
      (case Less s j i of Inl e \<Rightarrow> Inl e
       | Inr b \<Rightarrow> if \<not> b then Inr (s, i)
                  else (case Swap s i j of Inl e \<Rightarrow> Inl e | Inr s1 \<Rightarrow> down_loop s1 j n))"
      unfolding down_loop.simps [of s i n] Let_def using out r
      by (simp only: if_False sum.case j_def)
    show ?thesis
    proof (cases b)
      case False
      with b unf show ?thesis by simp
    next
      case True
      from ri rj obtain s1 where s1: "Swap s i j = Inr s1" using Swap_succeeds by blast
      from lc have j0: "0 \<le> j" by simp
      from "1.prems" have "n \<le> Len s1" by (simp add: Swap_Len [OF s1])
      from "1.IH" [OF refl out r j_def b _ s1 j0 this] True
      show ?thesis using unf b s1 by simp
    qed
  qed
qed

section \<open>Push, Pop and the three heap functions\<close>

lemma frame_refl: "frame s s"
  by (simp add: frame_def)

lemma frame_trans: "frame s t \<Longrightarrow> frame t u \<Longrightarrow> frame s u"
  by (simp add: frame_def)

lemma Swap_frame:
  assumes "Swap s i j = Inr s'"
  shows "frame s s'"
proof -
  from assms have r: "nat i < length (pq s)" "nat j < length (pq s)"
    using Swap_Inr(1,2) [OF assms] by (auto simp: in_range_def Len_def)
  then have "pq s ! nat i \<in> set (pq s)" "pq s ! nat j \<in> set (pq s)" by simp_all
  then have "\<forall>r. r \<notin> set (pq s) \<longrightarrow> mem s' r = mem s r"
    by (auto simp: Swap_Inr(5) [OF assms])
  then show ?thesis
    by (simp add: frame_def Swap_length [OF assms] Swap_Inr(4) [OF assms] Swap_set [OF assms]
        Swap_fields [OF assms])
qed

lemma up_frame: "up s j = Inr s' \<Longrightarrow> frame s s'"
  by (erule up_preserves [where I = "frame s"]) (auto intro: frame_refl frame_trans Swap_frame)

lemma down_loop_frame: "down_loop s i n = Inr (s', i') \<Longrightarrow> frame s s'"
  by (erule down_loop_preserves [where I = "frame s"]) (auto intro: frame_refl frame_trans Swap_frame)

lemma up_idx_ok: "up s j = Inr s' \<Longrightarrow> idx_ok s \<Longrightarrow> idx_ok s'"
  by (erule up_preserves [where I = idx_ok]) (auto intro: Swap_idx_ok)

lemma down_loop_idx_ok: "down_loop s i n = Inr (s', i') \<Longrightarrow> idx_ok s \<Longrightarrow> idx_ok s'"
  by (erule down_loop_preserves [where I = idx_ok]) (auto intro: Swap_idx_ok)

lemma Swap_nth: "Swap s i j = Inr s' \<Longrightarrow> k \<noteq> nat i \<Longrightarrow> k \<noteq> nat j \<Longrightarrow> pq s' ! k = pq s ! k"
  by (simp add: Swap_Inr(3))

lemma up_above:
  assumes "up s j = Inr s'" "0 \<le> j" "nat j < k"
  shows "pq s' ! k = pq s ! k"
  using assms
proof (induction s j rule: up.induct)
  case (1 s j)
  from "1.prems"(1) show ?case
  proof (cases rule: up_elim)
    case root
    then show ?thesis by simp
  next
    case stop
    then show ?thesis by simp
  next
    case (swap s1)
    note p = go_div_parent [OF "1.prems"(2) swap(1)]
    from p "1.prems"(3) have k: "nat (go_div (j - 1) 2) < k" by simp
    from "1.IH" [OF refl swap(1) swap(2) _ swap(3) swap(4) p(2) k]
    have "pq s' ! k = pq s1 ! k" by simp
    also from k "1.prems"(3) have "pq s1 ! k = pq s ! k"
      by (intro Swap_nth [OF swap(3)]) auto
    finally show ?thesis .
  qed
qed

lemma down_loop_above:
  assumes "down_loop s i n = Inr (s', i')" "nat n \<le> k"
  shows "pq s' ! k = pq s ! k"
  using assms
proof (induction s i n rule: down_loop.induct)
  case (1 s i n)
  from "1.prems"(1) show ?case
  proof (cases rule: down_loop_elim)
    case leaf
    then show ?thesis by simp
  next
    case (stop r j)
    then show ?thesis by simp
  next
    case (swap r j s1)
    note lc = larger_child [OF swap(1,2,3)]
    from "1.IH" [OF refl swap(1) swap(2) swap(3) swap(4) _ swap(5) swap(6) "1.prems"(2)]
    have "pq s' ! k = pq s1 ! k" by simp
    also from lc(1,2,3) "1.prems"(2) have "pq s1 ! k = pq s ! k"
      by (intro Swap_nth [OF swap(5)]) auto
    finally show ?thesis .
  qed
qed

lemma heap_order_key: "heap_order s \<longleftrightarrow> heap_upto (key s) (length (pq s))"
  by (auto simp: heap_order_def heap_upto_def key_def)

lemma Push_Inr:
  "Push s x = Inr s1 \<longleftrightarrow>
   length (pq s) < cap s \<and> s1 = (set_index s x (Len s))\<lparr>pq := pq s @ [x]\<rparr>"
  by (auto simp: Push_def Let_def Len_def)

lemma Push_Inl: "Push s x = Inl e \<longleftrightarrow> \<not> length (pq s) < cap s \<and> e = SliceBoundsOutOfRange"
  by (auto simp: Push_def Let_def Len_def)

lemma Pop_Inr:
  "Pop s = Inr (x, s') \<longleftrightarrow>
   pq s \<noteq> [] \<and> x = last (pq s) \<and> s' = (set_index s x (- 1))\<lparr>pq := butlast (pq s)\<rparr>"
proof (cases "pq s = []")
  case True
  then show ?thesis by (simp add: Pop_def Let_def in_range_def Len_def)
next
  case False
  then have "nat (int (length (pq s)) - 1) = length (pq s) - 1" by simp
  with False show ?thesis
    by (auto simp: Pop_def Let_def in_range_def Len_def last_conv_nth butlast_conv_take)
qed

lemma Pop_Inl: "Pop s = Inl e \<longleftrightarrow> pq s = [] \<and> e = IndexOutOfRange"
  by (auto simp: Pop_def Let_def in_range_def Len_def)

lemma heap_Push_Inr:
  assumes "heap_Push s x = Inr s'"
  obtains s1 where "length (pq s) < cap s" "s1 = (set_index s x (Len s))\<lparr>pq := pq s @ [x]\<rparr>"
    "up s1 (Len s) = Inr s'"
  using assms by (auto simp: heap_Push_def Push_Inr Len_def split: sum.splits)

lemma heap_Push_full: "\<not> length (pq s) < cap s \<Longrightarrow> heap_Push s x = Inl SliceBoundsOutOfRange"
proof -
  assume "\<not> length (pq s) < cap s"
  then have "Push s x = Inl SliceBoundsOutOfRange" by (simp add: Push_Inl)
  then show ?thesis by (simp add: heap_Push_def)
qed

lemma heap_Push_succeeds:
  assumes "length (pq s) < cap s"
  shows "\<exists>s'. heap_Push s x = Inr s'"
proof -
  define s1 where "s1 = (set_index s x (Len s))\<lparr>pq := pq s @ [x]\<rparr>"
  with assms have p: "Push s x = Inr s1" by (simp add: Push_Inr)
  have "in_range s1 (Len s1 - 1)" by (simp add: in_range_def Len_def s1_def)
  from up_succeeds [OF this] p show ?thesis by (simp add: heap_Push_def)
qed

lemma heap_Push_frame:
  assumes "heap_Push s x = Inr s'"
  shows "length (pq s') = Suc (length (pq s))" "cap s' = cap s"
    "set (pq s') = insert x (set (pq s))"
    "priority (mem s' r) = priority (mem s r)" "item_value (mem s' r) = item_value (mem s r)"
    "r \<notin> set (pq s) \<Longrightarrow> r \<noteq> x \<Longrightarrow> mem s' r = mem s r"
proof -
  from assms(1) obtain s1 where s1: "s1 = (set_index s x (Len s))\<lparr>pq := pq s @ [x]\<rparr>"
    and u: "up s1 (Len s) = Inr s'" by (rule heap_Push_Inr)
  note f = up_frame [OF u, unfolded frame_def]
  from f show "length (pq s') = Suc (length (pq s))" "cap s' = cap s"
    "set (pq s') = insert x (set (pq s))"
    by (simp_all add: s1 set_index_def)
  from f show "priority (mem s' r) = priority (mem s r)" "item_value (mem s' r) = item_value (mem s r)"
    by (simp_all add: s1 set_index_def)
  assume "r \<notin> set (pq s)" "r \<noteq> x"
  with f show "mem s' r = mem s r" by (simp add: s1 set_index_def)
qed

lemma heap_Push_idx_ok:
  assumes "heap_Push s x = Inr s'" "idx_ok s" "x \<notin> set (pq s)"
  shows "idx_ok s'"
proof -
  from assms(1) obtain s1 where s1: "s1 = (set_index s x (Len s))\<lparr>pq := pq s @ [x]\<rparr>"
    and u: "up s1 (Len s) = Inr s'" by (rule heap_Push_Inr)
  have "idx_ok s1"
    using assms(2,3)
    by (auto simp: idx_ok_def index_consistent_def s1 set_index_def Len_def nth_append)
  with u show ?thesis by (rule up_idx_ok)
qed

lemma heap_Push_heap:
  assumes "heap_Push s x = Inr s'" "heap_order s"
  shows "heap_order s'"
proof -
  from assms(1) obtain s1 where s1: "s1 = (set_index s x (Len s))\<lparr>pq := pq s @ [x]\<rparr>"
    and u: "up s1 (Len s) = Inr s'" by (rule heap_Push_Inr)
  define n where "n = length (pq s)"
  have k: "key s1 c = key s c" if "c < n" for c
    using that by (simp add: key_def s1 set_index_def nth_append n_def)
  have par: "(c - 1) div 2 < c" if "0 < c" for c :: nat using that by arith
  from assms(2) have h: "\<And>c. 0 < c \<Longrightarrow> c < n \<Longrightarrow> key s c \<le> key s ((c - 1) div 2)"
    by (simp add: heap_order_key heap_upto_def n_def)
  have "up_inv (key s1) (Suc n) n"
    unfolding up_inv_def heap_but_def
  proof (intro conjI allI impI)
    fix c
    assume "0 < c \<and> c < Suc n \<and> c \<noteq> n"
    then have c: "0 < c" "c < n" by simp_all
    with par [of c] h [OF c] show "key s1 c \<le> key s1 ((c - 1) div 2)"
      by (simp add: k)
  next
    fix c
    assume "0 < c \<and> c < Suc n \<and> (c - 1) div 2 = n \<and> 0 < n"
    with par [of c] show "key s1 c \<le> key s1 ((n - 1) div 2)" by simp
  qed
  moreover have "length (pq s1) = Suc n" by (simp add: s1 n_def)
  ultimately have "heap_upto (key s') (Suc n)"
    using up_heap [OF u, of "Suc n"] by (simp add: Len_def n_def)
  moreover from up_frame [OF u] have "length (pq s') = Suc n"
    by (simp add: frame_def s1 n_def)
  ultimately show ?thesis by (simp add: heap_order_key)
qed

lemma Pop_facts:
  assumes "Pop s = Inr (x, s')"
  shows "pq s \<noteq> []" "x = last (pq s)" "pq s' = butlast (pq s)" "cap s' = cap s"
    "mem s' = (mem s)(x := (mem s x)\<lparr>index := - 1\<rparr>)"
  using assms by (simp_all add: Pop_Inr set_index_def)

lemma Pop_idx_ok:
  assumes "Pop s = Inr (x, s')" "idx_ok s"
  shows "idx_ok s'" "x \<notin> set (pq s')"
proof -
  note p = Pop_facts [OF assms(1)]
  from p(1) have sp: "pq s = butlast (pq s) @ [last (pq s)]" by simp
  from assms(2) have "distinct (pq s)" by (simp add: idx_ok_def)
  with sp have d: "distinct (butlast (pq s))" and nx: "last (pq s) \<notin> set (butlast (pq s))"
    by (metis distinct_butlast, metis distinct_append disjoint_iff list.set_intros(1) distinct.simps(2) not_distinct_conv_prefix append_Cons append_Nil)
  from nx p show "x \<notin> set (pq s')" by simp
  have "index (mem s' (pq s' ! k)) = int k" if k: "k < length (pq s')" for k
  proof -
    from k p have kk: "k < length (pq s)" by simp
    from k p have e: "pq s' ! k = pq s ! k" by (simp add: nth_butlast)
    from k p have "pq s' ! k \<in> set (butlast (pq s))" by (metis nth_mem)
    with nx p have "pq s' ! k \<noteq> x" by auto
    with e assms(2) kk show ?thesis
      by (simp add: p(5) idx_ok_def index_consistent_def)
  qed
  with d p show "idx_ok s'" by (simp add: idx_ok_def index_consistent_def)
qed

lemma Pop_heap:
  assumes "Pop s = Inr (x, s')" "heap_upto (key s) (length (pq s) - 1)"
  shows "heap_order s'"
proof -
  note p = Pop_facts [OF assms(1)]
  have "key s' k = key s k" if "k < length (pq s) - 1" for k
    using that by (simp add: key_def p(3,5) nth_butlast)
  moreover have "(c - 1) div 2 < length (pq s) - 1" if "c < length (pq s) - 1" for c
    using that by arith
  ultimately show ?thesis
    using assms(2) by (simp add: heap_order_key heap_upto_def p(3))
qed

lemma heap_Remove_elim [consumes 1, case_names last inner]:
  assumes "heap_Remove s i = Inr (x, s')"
  obtains (last) "i = Len s - 1" "Pop s = Inr (x, s')"
  | (inner) s1 s2 i' s3 where "i \<noteq> Len s - 1" "Swap s i (Len s - 1) = Inr s1"
      "down_loop s1 i (Len s - 1) = Inr (s2, i')"
      "if i < i' then s3 = s2 else up s2 i = Inr s3" "Pop s3 = Inr (x, s')"
proof (cases "i = Len s - 1")
  case True
  with assms have "Pop s = Inr (x, s')" by (simp add: heap_Remove_def)
  with True show ?thesis by (rule last)
next
  case False
  with assms obtain s3 where
    a: "(case Swap s i (Len s - 1) of Inl e \<Rightarrow> Inl e
         | Inr s1 \<Rightarrow> (case down s1 i (Len s - 1) of Inl e \<Rightarrow> Inl e
                      | Inr (s2, moved) \<Rightarrow> if \<not> moved then up s2 i else Inr s2)) = Inr s3"
    and p: "Pop s3 = Inr (x, s')"
    by (auto simp: heap_Remove_def Let_def split: sum.splits)
  from a obtain s1 where s1: "Swap s i (Len s - 1) = Inr s1"
    by (cases "Swap s i (Len s - 1)") auto
  with a obtain s2 i' where d: "down_loop s1 i (Len s - 1) = Inr (s2, i')"
    by (cases "down_loop s1 i (Len s - 1)") (auto simp: down_def)
  with a s1 have "if i < i' then s3 = s2 else up s2 i = Inr s3"
    by (auto simp: down_def)
  with False s1 d show ?thesis using p by (rule inner)
qed

lemma remove_inner:
  assumes ne: "i \<noteq> Len s - 1" and sw: "Swap s i (Len s - 1) = Inr s1"
    and d: "down_loop s1 i (Len s - 1) = Inr (s2, i')"
    and u: "if i < i' then s3 = s2 else up s2 i = Inr s3"
  shows "frame s s3" "last (pq s3) = pq s ! nat i"
    "idx_ok s \<Longrightarrow> idx_ok s3" "heap_order s \<Longrightarrow> heap_upto (key s3) (length (pq s3) - 1)"
proof -
  define n where "n = Len s - 1"
  note r = Swap_Inr(1,2) [OF sw]
  from r ne have i: "0 \<le> i" "i < n" and n0: "0 \<le> n" and len: "length (pq s) = Suc (nat n)"
    by (auto simp: in_range_def n_def Len_def)
  note m = down_loop_mono [OF d]
  have f12: "frame s s2" using Swap_frame [OF sw] down_loop_frame [OF d] by (rule frame_trans)
  from u have f23: "frame s2 s3" by (auto intro: frame_refl up_frame split: if_splits)
  from f12 f23 show f: "frame s s3" by (rule frame_trans)
  then have len3: "length (pq s3) = Suc (nat n)" by (simp add: frame_def len)
  have "pq s1 ! nat n = pq s ! nat i"
    using i len by (simp add: Swap_Inr(3) [OF sw] n_def [symmetric])
  moreover have "pq s2 ! nat n = pq s1 ! nat n"
    using down_loop_above [OF d, of "nat n"] by (simp add: n_def)
  moreover have "pq s3 ! nat n = pq s2 ! nat n"
  proof (cases "i < i'")
    case True
    with u show ?thesis by simp
  next
    case False
    with u have "up s2 i = Inr s3" by simp
    from up_above [OF this i(1), of "nat n"] i show ?thesis by simp
  qed
  moreover have "last (pq s3) = pq s3 ! nat n"
  proof -
    from len3 have "pq s3 \<noteq> []" by auto
    then have "last (pq s3) = pq s3 ! (length (pq s3) - 1)" by (rule last_conv_nth)
    with len3 show ?thesis by simp
  qed
  ultimately show "last (pq s3) = pq s ! nat i" by simp
  show "idx_ok s3" if "idx_ok s"
  proof -
    from that have "idx_ok s2" using Swap_idx_ok [OF sw] down_loop_idx_ok [OF d] by blast
    with u show ?thesis by (auto intro: up_idx_ok split: if_splits)
  qed
  show "heap_upto (key s3) (length (pq s3) - 1)" if "heap_order s"
  proof -
    from that have "heap_upto (key s) (Suc (nat n))" by (simp add: heap_order_key len)
    from down_inv_init [OF this, of "nat i"] i
    have inv: "down_inv (key s1) (nat n) (nat i) (nat i)"
      by (simp add: Swap_key [OF sw] n_def [symmetric])
    have l1: "nat n \<le> length (pq s1)" by (simp add: Swap_length [OF sw] len)
    from down_heap [OF d [folded n_def] i(1) l1 inv]
    have hb: "heap_but (key s2) (nat n) (nat i)"
      and hu: "nat i' \<noteq> nat i \<Longrightarrow> heap_upto (key s2) (nat n)" by simp_all
    have "heap_upto (key s3) (nat n)"
    proof (cases "i < i'")
      case True
      with i have "nat i' \<noteq> nat i" by simp
      with hu u True show ?thesis by simp
    next
      case False
      with m have e: "i' = i" "s2 = s1" by simp_all
      from False u e have up: "up s1 i = Inr s3" by simp
      from inv hb e have "up_inv (key s1) (nat n) (nat i)" by (auto intro: down_inv_up_inv)
      with up_heap [OF up i(1) _ l1] i show ?thesis by simp
    qed
    with len3 show ?thesis by simp
  qed
qed

lemma heap_upto_mono: "heap_upto f n \<Longrightarrow> m \<le> n \<Longrightarrow> heap_upto f m"
  by (simp add: heap_upto_def)

lemma heap_Remove_core:
  assumes "heap_Remove s i = Inr (x, s')"
  shows "\<exists>s3. in_range s i \<and> frame s s3 \<and> last (pq s3) = pq s ! nat i \<and>
    (idx_ok s \<longrightarrow> idx_ok s3) \<and>
    (heap_order s \<longrightarrow> heap_upto (key s3) (length (pq s3) - 1)) \<and>
    Pop s3 = Inr (x, s')"
  using assms
proof (cases rule: heap_Remove_elim)
  case last
  note p = Pop_facts [OF last(2)]
  from p(1) last(1) have r: "in_range s i" and ni: "nat i = length (pq s) - 1"
    by (auto simp: in_range_def Len_def)
  from p(1) ni have l: "last (pq s) = pq s ! nat i" by (simp add: last_conv_nth)
  have "heap_order s \<longrightarrow> heap_upto (key s) (length (pq s) - 1)"
    by (auto simp: heap_order_key intro: heap_upto_mono)
  with r l last(2) frame_refl [of s] show ?thesis by blast
next
  case (inner s1 s2 i' s3)
  note ri = remove_inner [OF inner(1,2,3,4)]
  from Swap_Inr(1) [OF inner(2)] ri inner(5) show ?thesis by blast
qed

lemma heap_Remove_facts:
  assumes "heap_Remove s i = Inr (x, s')"
  shows "in_range s i" "x = pq s ! nat i" "Suc (length (pq s')) = length (pq s)" "cap s' = cap s"
    "set (pq s) = insert x (set (pq s'))" "index (mem s' x) = - 1"
    "priority (mem s' r) = priority (mem s r)" "item_value (mem s' r) = item_value (mem s r)"
    "r \<notin> set (pq s) \<Longrightarrow> mem s' r = mem s r"
    "idx_ok s \<Longrightarrow> idx_ok s'" "idx_ok s \<Longrightarrow> x \<notin> set (pq s')"
    "heap_order s \<Longrightarrow> heap_order s'"
proof -
  from assms obtain s3 where r: "in_range s i" and f: "frame s s3"
    and l: "last (pq s3) = pq s ! nat i"
    and ix: "idx_ok s \<Longrightarrow> idx_ok s3"
    and h: "heap_order s \<Longrightarrow> heap_upto (key s3) (length (pq s3) - 1)"
    and p: "Pop s3 = Inr (x, s')" using heap_Remove_core by blast
  note pf = Pop_facts [OF p]
  from pf(1) have sp: "pq s3 = butlast (pq s3) @ [last (pq s3)]" by simp
  from r show "in_range s i" .
  from pf l show x: "x = pq s ! nat i" by simp
  from pf(1) have "0 < length (pq s3)" by simp
  with pf f show "Suc (length (pq s')) = length (pq s)" "cap s' = cap s"
    by (auto simp: frame_def)
  have "set (pq s3) = insert x (set (pq s'))"
    using pf(2,3) by (subst sp) simp
  with f show sx: "set (pq s) = insert x (set (pq s'))" by (simp add: frame_def)
  from pf show "index (mem s' x) = - 1" by simp
  from pf f show "priority (mem s' r) = priority (mem s r)"
    "item_value (mem s' r) = item_value (mem s r)" by (simp_all add: frame_def)
  show "mem s' r = mem s r" if "r \<notin> set (pq s)"
    using that sx f pf(5) by (auto simp: frame_def)
  show "idx_ok s'" if "idx_ok s" using Pop_idx_ok(1) [OF p] ix that by simp
  show "x \<notin> set (pq s')" if "idx_ok s" using Pop_idx_ok(2) [OF p] ix that by simp
  show "heap_order s'" if "heap_order s" using Pop_heap [OF p] h that by simp
qed

lemma up_root: "up s 0 = Inr s"
  by (simp add: up.simps [of s 0] go_div_def)

lemma heap_Remove_succeeds:
  assumes "in_range s i"
  shows "\<exists>x s'. heap_Remove s i = Inr (x, s')"
proof -
  define n where "n = Len s - 1"
  have pop: "\<exists>x s'. Pop t = Inr (x, s')" if "length (pq t) = length (pq s)" for t
    using that assms by (cases "pq t = []") (auto simp: Pop_Inr in_range_def Len_def)
  show ?thesis
  proof (cases "n = i")
    case True
    with pop [of s] show ?thesis by (auto simp: heap_Remove_def n_def)
  next
    case False
    from assms have rn: "in_range s n" by (auto simp: in_range_def n_def)
    with assms obtain s1 where s1: "Swap s i n = Inr s1" using Swap_succeeds by blast
    from assms have "0 \<le> i" "n \<le> Len s1"
      by (auto simp: in_range_def n_def Swap_Len [OF s1])
    then obtain s2 i' where d: "down_loop s1 i n = Inr (s2, i')"
      using down_loop_succeeds by blast
    have l2: "length (pq s2) = length (pq s)"
      using Swap_frame [OF s1] down_loop_frame [OF d] by (simp add: frame_def)
    with assms have "in_range s2 i" by (simp add: in_range_def Len_def)
    then obtain s3 where u: "up s2 i = Inr s3" using up_succeeds by blast
    from up_frame [OF u] l2 have l3: "length (pq s3) = length (pq s)" by (simp add: frame_def)
    from pop [OF l2] pop [OF l3] False s1 d u show ?thesis
      by (auto simp: heap_Remove_def n_def [symmetric] down_def)
  qed
qed

lemma heap_Remove_fails:
  assumes "\<not> in_range s i"
  shows "heap_Remove s i = Inl IndexOutOfRange"
proof (cases "Len s - 1 = i")
  case True
  with assms have "pq s = []" by (auto simp: in_range_def Len_def)
  then have "Pop s = Inl IndexOutOfRange" by (simp add: Pop_Inl)
  with True show ?thesis by (simp add: heap_Remove_def)
next
  case False
  from assms have "Swap s i (Len s - 1) = Inl IndexOutOfRange" by (simp add: Swap_def)
  with False show ?thesis by (simp add: heap_Remove_def)
qed

lemma heap_Pop_Remove: "heap_Pop s = heap_Remove s 0"
proof (cases "Len s - 1 = 0")
  case True
  then obtain a where a: "pq s = [a]"
    by (cases "pq s") (auto simp: Len_def)
  define s1 where "s1 = s\<lparr>mem := (mem s)(a := (mem s a)\<lparr>index := 0\<rparr>)\<rparr>"
  have sw: "Swap s 0 0 = Inr s1"
    by (simp add: Swap_def Let_def in_range_def Len_def a set_index_def s1_def)
  have d: "down s1 0 0 = Inr (s1, False)"
    by (simp add: down_def down_loop.simps [of s1 0 0])
  have "Pop s1 = Pop s"
    by (simp add: Pop_def Let_def in_range_def Len_def a set_index_def s1_def)
  with True sw d show ?thesis by (simp add: heap_Pop_def heap_Remove_def)
next
  case False
  show ?thesis
  proof (cases "Swap s 0 (Len s - 1)")
    case (Inl e)
    with False show ?thesis by (simp add: heap_Pop_def heap_Remove_def)
  next
    case (Inr s1)
    show ?thesis
    proof (cases "down s1 0 (Len s - 1)")
      case (Inl e)
      with False Inr show ?thesis by (simp add: heap_Pop_def heap_Remove_def)
    next
      case d: (Inr r)
      with False Inr show ?thesis
        by (cases r) (simp add: heap_Pop_def heap_Remove_def up_root)
    qed
  qed
qed

section \<open>The demonstration run\<close>

text \<open>
  C1. Starting from the empty queue of \<^verbatim>\<open>NewIntQueue(10)\<close>, \<^verbatim>\<open>main\<close> pushes the ten Items
  with priorities 77, 22, 44, 55, 11, 88, 33, 99, 0, 66 and values 0 to 9 through
  \<^verbatim>\<open>heap.Push\<close> and pops ten times through \<^verbatim>\<open>heap.Pop\<close>. Whatever the memory held before,
  the pairs (priority, value) come out as (99,7), (88,5), (77,0), (66,9), (55,3), (44,2),
  (33,6), (22,1), (11,4), (0,8), and the popped priorities are strictly decreasing.
\<close>

theorem main_pops_in_priority_order:
  "\<exists>out. main m = Inr out \<and>
     out = [(99, 7), (88, 5), (77, 0), (66, 9), (55, 3), (44, 2), (33, 6), (22, 1), (11, 4), (0, 8)] \<and>
     sorted_wrt (\<lambda>a b. a > b) (map fst out)"
proof -
  have "main m =
      Inr [(99, 7), (88, 5), (77, 0), (66, 9), (55, 3), (44, 2), (33, 6), (22, 1), (11, 4), (0, 8)]"
    by code_simp
  then show ?thesis by simp
qed

section \<open>Reachable states\<close>

lemma store_detached_invar:
  assumes "invar s" "x \<notin> set (pq s)"
  shows "invar (s\<lparr>mem := (mem s)(x := it)\<rparr>)"
proof -
  have "pq s ! i \<noteq> x" if "i < length (pq s)" for i
    using that assms(2) by (metis nth_mem)
  moreover have "(i - 1) div 2 < length (pq s)" if "i < length (pq s)" for i
    using that by arith
  ultimately show ?thesis
    using assms(1)
    by (simp add: invar_def idx_ok_def index_consistent_def heap_order_def)
qed

lemma heap_Push_invar:
  assumes "heap_Push s x = Inr s'" "invar s" "x \<notin> set (pq s)"
  shows "invar s'"
proof -
  from assms(1) have "length (pq s) < cap s" by (rule heap_Push_Inr)
  with heap_Push_frame(1,2) [OF assms(1)] have "length (pq s') \<le> cap s'" by simp
  with heap_Push_idx_ok [OF assms(1)] heap_Push_heap [OF assms(1)] assms(2,3)
  show ?thesis by (simp add: invar_def)
qed

lemma heap_Remove_invar:
  assumes "heap_Remove s i = Inr (x, s')" "invar s"
  shows "invar s'" "x \<notin> set (pq s')" "length (pq s') < cap s'"
proof -
  note f = heap_Remove_facts [OF assms(1)]
  from assms(2) f(3,4) show "length (pq s') < cap s'" by (simp add: invar_def)
  with assms(2) f(10,12) show "invar s'" by (simp add: invar_def)
  from assms(2) f(11) show "x \<notin> set (pq s')" by (simp add: invar_def)
qed

lemma update_invar:
  assumes "update s v p = Inr s'" "invar s"
  shows "invar s'"
proof -
  from assms(1) obtain x s1 where r: "heap_Remove s 0 = Inr (x, s1)"
    and p: "heap_Push (s1\<lparr>mem := (mem s1)(x := (mem s1 x)\<lparr>item_value := v, priority := p\<rparr>)\<rparr>) x = Inr s'"
    by (auto simp: update_def heap_Pop_Remove split: sum.splits)
  note i = heap_Remove_invar [OF r assms(2)]
  from store_detached_invar [OF i(1,2)] i(2) show ?thesis
    by (intro heap_Push_invar [OF p]) simp_all
qed

lemma changePriority_invar:
  assumes "changePriority s x p = Inr s'" "invar s" "attached s x"
  shows "invar s'"
proof -
  from assms(1) obtain y s1 where r: "heap_Remove s (index (mem s x)) = Inr (y, s1)"
    and p: "heap_Push (s1\<lparr>mem := (mem s1)(x := (mem s1 x)\<lparr>priority := p\<rparr>)\<rparr>) x = Inr s'"
    by (auto simp: changePriority_def split: sum.splits)
  from heap_Remove_facts(2) [OF r] assms(3) have "y = x" by (simp add: attached_def)
  note i = heap_Remove_invar [OF r assms(2), unfolded this]
  from store_detached_invar [OF i(1,2)] i(2) show ?thesis
    by (intro heap_Push_invar [OF p]) simp_all
qed

lemma reachable_invar: "reachable s \<Longrightarrow> invar s"
proof (induction rule: reachable.induct)
  case (new m n s)
  then show ?case
    by (auto simp: NewIntQueue_def invar_def idx_ok_def index_consistent_def heap_order_def
        split: if_splits)
next
  case (push s x it s')
  from store_detached_invar [OF push.IH push.hyps(2)] push.hyps(2)
  show ?case by (intro heap_Push_invar [OF push.hyps(3)]) simp_all
next
  case (pop s x s')
  from pop.hyps(3) have "heap_Remove s 0 = Inr (x, s')" by (simp add: heap_Pop_Remove)
  from heap_Remove_invar(1) [OF this pop.IH] show ?case .
next
  case (changePriority s x p s')
  then show ?case by (auto intro: changePriority_invar)
next
  case (update s v p s')
  then show ?case by (auto intro: update_invar)
qed

lemma demo0_obs: "pq demo0 = []" "cap demo0 = 2"
  by (simp_all add: demo0_def NewIntQueue_def)

lemma demo1_obs: "pq demo1 = [0]" "cap demo1 = 2"
  by code_simp+

lemma demo2_obs: "pq demo2 = [1, 0]" "cap demo2 = 2"
  "priority (mem demo2 0) = 5" "priority (mem demo2 1) = 9"
  "index (mem demo2 0) = 1" "index (mem demo2 1) = 0"
  by code_simp+

lemma reachable_demo0: "reachable demo0"
  by (rule reachable.new [of zero_mem 2]) (simp add: demo0_def NewIntQueue_def)

lemma reachable_demo1: "reachable demo1"
proof (rule reachable.push [OF reachable_demo0, of 0 "\<lparr>item_value = 10, priority = 5, index = 0\<rparr>"])
  show "0 \<notin> set (pq demo0)" by (simp add: demo0_obs)
  have "\<exists>s'. heap_Push (demo0\<lparr>mem := (mem demo0)(0 := \<lparr>item_value = 10, priority = 5, index = 0\<rparr>)\<rparr>) 0 = Inr s'"
    by (rule heap_Push_succeeds) (simp add: demo0_obs)
  then show "heap_Push (demo0\<lparr>mem := (mem demo0)(0 := \<lparr>item_value = 10, priority = 5, index = 0\<rparr>)\<rparr>) 0 = Inr demo1"
    by (auto simp: demo1_def)
qed

lemma reachable_demo2: "reachable demo2"
proof (rule reachable.push [OF reachable_demo1, of 1 "\<lparr>item_value = 11, priority = 9, index = 0\<rparr>"])
  show "1 \<notin> set (pq demo1)" by (simp add: demo1_obs)
  have "\<exists>s'. heap_Push (demo1\<lparr>mem := (mem demo1)(1 := \<lparr>item_value = 11, priority = 9, index = 0\<rparr>)\<rparr>) 1 = Inr s'"
    by (rule heap_Push_succeeds) (simp add: demo1_obs)
  then show "heap_Push (demo1\<lparr>mem := (mem demo1)(1 := \<lparr>item_value = 11, priority = 9, index = 0\<rparr>)\<rparr>) 1 = Inr demo2"
    by (auto simp: demo2_def)
qed

text \<open>
  C2. In every state reachable from an empty queue by push, pop, changePriority and update,
  each under its precondition, the max-heap order holds: the priority at every non-root
  position is at most the priority at its parent position.
\<close>

theorem reachable_heap_order:
  "reachable s \<Longrightarrow>
   \<forall>i. 0 < i \<and> i < length (pq s) \<longrightarrow>
     priority (mem s (pq s ! i)) \<le> priority (mem s (pq s ! ((i - 1) div 2)))"
  using reachable_invar [of s] by (simp add: invar_def heap_order_def)

theorem reachable_heap_order_witness:
  "reachable demo2 \<and> length (pq demo2) = 2 \<and>
   priority (mem demo2 (pq demo2 ! 1)) \<le> priority (mem demo2 (pq demo2 ! 0))"
proof -
  have l: "length (pq demo2) = 2" by (simp add: demo2_obs)
  have "priority (mem demo2 (pq demo2 ! 1)) \<le> priority (mem demo2 (pq demo2 ! 0))"
    using reachable_heap_order [OF reachable_demo2, THEN spec, of 1] l by simp
  with l reachable_demo2 show ?thesis by blast
qed

text \<open>
  C3. In every such state the Item at position \<open>i\<close> has its \<^verbatim>\<open>index\<close> field equal to
  \<open>i\<close>, and so two different Items of the queue never carry the same index.
\<close>

theorem reachable_index_consistent:
  "reachable s \<Longrightarrow>
   (\<forall>i. i < length (pq s) \<longrightarrow> index (mem s (pq s ! i)) = int i) \<and>
   (\<forall>x \<in> set (pq s). \<forall>y \<in> set (pq s). x \<noteq> y \<longrightarrow> index (mem s x) \<noteq> index (mem s y))"
proof -
  assume "reachable s"
  then have ix: "\<And>i. i < length (pq s) \<Longrightarrow> index (mem s (pq s ! i)) = int i"
    using reachable_invar [of s] by (simp add: invar_def idx_ok_def index_consistent_def)
  have "index (mem s x) \<noteq> index (mem s y)"
    if "x \<in> set (pq s)" "y \<in> set (pq s)" "x \<noteq> y" for x y
  proof -
    from that obtain i j where "i < length (pq s)" "pq s ! i = x" "j < length (pq s)" "pq s ! j = y"
      by (auto simp: in_set_conv_nth)
    with ix [of i] ix [of j] that(3) show ?thesis by auto
  qed
  with ix show ?thesis by blast
qed

theorem reachable_index_consistent_witness:
  "reachable demo2 \<and> pq demo2 = [1, 0] \<and>
   index (mem demo2 1) = 0 \<and> index (mem demo2 0) = 1 \<and>
   index (mem demo2 1) \<noteq> index (mem demo2 0)"
proof -
  note c = reachable_index_consistent [OF reachable_demo2]
  have p: "pq demo2 = [1, 0]" by (rule demo2_obs)
  from c [THEN conjunct1, THEN spec, of 0] p have "index (mem demo2 1) = 0" by simp
  moreover from c [THEN conjunct1, THEN spec, of 1] p have "index (mem demo2 0) = 1" by simp
  moreover from c [THEN conjunct2, THEN bspec, of 1, THEN bspec, of 0] p
  have "index (mem demo2 1) \<noteq> index (mem demo2 0)" by simp
  ultimately show ?thesis using p reachable_demo2 by blast
qed

section \<open>Push and pop\<close>

text \<open>
  C4. The specification has push never fail. The code has a fixed capacity: the queue's
  \<^verbatim>\<open>Push\<close> reslices within the backing array and never grows it. What holds instead: a
  push into a queue with room succeeds and makes it exactly one longer; a push into a full
  queue panics (slice bounds out of range) and returns no state.
\<close>

theorem heap_Push_iff_room:
  "(length (pq s) < cap s \<and>
      (\<exists>s'. heap_Push s x = Inr s' \<and> length (pq s') = length (pq s) + 1 \<and> cap s' = cap s)) \<or>
   (cap s \<le> length (pq s) \<and> heap_Push s x = Inl SliceBoundsOutOfRange)"
proof (cases "length (pq s) < cap s")
  case True
  from heap_Push_succeeds [OF this] obtain s' where p: "heap_Push s x = Inr s'" ..
  with True heap_Push_frame(1,2) [OF p] show ?thesis by simp
next
  case False
  with heap_Push_full [OF this] show ?thesis by simp
qed

theorem heap_Push_full_counterexample:
  "reachable demo2 \<and> length (pq demo2) = 2 \<and> heap_Push demo2 2 = Inl SliceBoundsOutOfRange"
proof -
  have "\<not> length (pq demo2) < cap demo2" by (simp add: demo2_obs)
  from heap_Push_full [OF this] reachable_demo2 show ?thesis by (simp add: demo2_obs)
qed

text \<open>
  C5. On a non-empty heap, pop returns the Item at the root, whose priority is the largest
  in the heap; both its fields are as they were, the heap is one shorter, and the Item's
  \<^verbatim>\<open>index\<close> is \<open>-1\<close>, which is no position of the heap.
\<close>

theorem heap_Pop_returns_max:
  assumes "heap_order s" "pq s \<noteq> []"
  shows "\<exists>x s'. heap_Pop s = Inr (x, s') \<and> x = pq s ! 0 \<and>
    (\<forall>y \<in> set (pq s). priority (mem s y) \<le> priority (mem s x)) \<and>
    priority (mem s' x) = priority (mem s x) \<and> item_value (mem s' x) = item_value (mem s x) \<and>
    Suc (length (pq s')) = length (pq s) \<and>
    index (mem s' x) = - 1 \<and> \<not> in_range s' (index (mem s' x))"
proof -
  from assms(2) have "in_range s 0" by (simp add: in_range_def Len_def)
  from heap_Remove_succeeds [OF this] obtain x s' where r: "heap_Remove s 0 = Inr (x, s')"
    by blast
  note f = heap_Remove_facts [OF r]
  have "priority (mem s y) \<le> priority (mem s x)" if "y \<in> set (pq s)" for y
  proof -
    from that obtain k where k: "k < length (pq s)" "pq s ! k = y"
      by (auto simp: in_set_conv_nth)
    from assms(1) have "heap_upto (key s) (length (pq s))" by (simp add: heap_order_key)
    from heap_upto_root [OF this k(1)] k(2) f(2) show ?thesis by (simp add: key_def)
  qed
  with r f show ?thesis by (auto simp: heap_Pop_Remove in_range_def)
qed

theorem heap_Pop_returns_max_witness:
  "\<exists>x s'. heap_Pop demo2 = Inr (x, s') \<and> x = 1 \<and> priority (mem s' x) = 9 \<and>
     length (pq s') = 1 \<and> index (mem s' x) = - 1"
proof -
  have h: "heap_order demo2" using reachable_invar [OF reachable_demo2] by (simp add: invar_def)
  have n: "pq demo2 \<noteq> []" by (simp add: demo2_obs)
  from heap_Pop_returns_max [OF h n] show ?thesis
    by (auto simp: demo2_obs demo2_obs [unfolded One_nat_def])
qed

text \<open>
  C6. The specification has pop and peek on an empty heap fail with an EmptyCollection
  error. The code has no such error. What holds instead: on an empty heap (new or drained)
  \<^verbatim>\<open>heap.Pop\<close> and the queue's own \<^verbatim>\<open>Pop\<close> stop with Go's index-out-of-range panic, and
  return no Item. The source has no peek.
\<close>

theorem pop_empty_panics:
  "pq s = [] \<Longrightarrow> heap_Pop s = Inl IndexOutOfRange \<and> Pop s = Inl IndexOutOfRange"
proof -
  assume e: "pq s = []"
  then have "\<not> in_range s 0" by (simp add: in_range_def Len_def)
  from heap_Remove_fails [OF this] e show ?thesis by (simp add: heap_Pop_Remove Pop_Inl)
qed

theorem pop_empty_panics_witness:
  "pq demo0 = [] \<and> heap_Pop demo0 = Inl IndexOutOfRange \<and> Pop demo0 = Inl IndexOutOfRange"
  using pop_empty_panics [of demo0] by (simp add: demo0_obs)

theorem pop_empty_counterexample:
  "heap_Pop demo0 \<noteq> Inl EmptyCollection \<and> heap_Pop demo0 = Inl IndexOutOfRange"
proof -
  have "\<not> in_range demo0 0" by (simp add: in_range_def Len_def demo0_obs)
  from heap_Remove_fails [OF this] show ?thesis by (simp add: heap_Pop_Remove)
qed

section \<open>Handles and updates\<close>

lemma detached_not_in_queue:
  assumes "invar s" "\<not> attached s x"
  shows "x \<notin> set (pq s)"
proof
  assume "x \<in> set (pq s)"
  then obtain k where k: "k < length (pq s)" "pq s ! k = x" by (auto simp: in_set_conv_nth)
  with assms(1) have "index (mem s x) = int k"
    by (auto simp: invar_def idx_ok_def index_consistent_def)
  with k have "attached s x" by (simp add: attached_def in_range_def Len_def)
  with assms(2) show False by simp
qed

text \<open>
  C8. The specification has changePriority validate the handle and fail with InvalidHandle
  for an Item that is not an occupant. The code does no validation, and has no removeAt of
  its own (\<^verbatim>\<open>heap.Remove\<close> takes a position). What holds instead: for an Item that is not in the queue of a reachable
  state: when its stored index is no position of the queue, changePriority stops with the
  index-out-of-range panic; when it is a position, changePriority succeeds, removes the
  Item that occupies that position (whose index becomes \<open>-1\<close>) and pushes the given Item
  with the new priority.
\<close>

theorem changePriority_unchecked:
  assumes "reachable s" "\<not> attached s x"
  shows "if in_range s (index (mem s x))
         then \<exists>s'. changePriority s x p = Inr s' \<and>
                set (pq s') = insert x (set (pq s) - {pq s ! nat (index (mem s x))}) \<and>
                index (mem s' (pq s ! nat (index (mem s x)))) = - 1 \<and>
                priority (mem s' x) = p
         else changePriority s x p = Inl IndexOutOfRange"
proof (cases "in_range s (index (mem s x))")
  case False
  from heap_Remove_fails [OF this] False show ?thesis by (simp add: changePriority_def)
next
  case True
  note inv = reachable_invar [OF assms(1)]
  from detached_not_in_queue [OF inv assms(2)] have xn: "x \<notin> set (pq s)" .
  from heap_Remove_succeeds [OF True] obtain y s1
    where r: "heap_Remove s (index (mem s x)) = Inr (y, s1)" by blast
  note f = heap_Remove_facts [OF r]
  note i = heap_Remove_invar [OF r inv]
  define s2 where "s2 = s1\<lparr>mem := (mem s1)(x := (mem s1 x)\<lparr>priority := p\<rparr>)\<rparr>"
  from i(3) have "length (pq s2) < cap s2" by (simp add: s2_def)
  from heap_Push_succeeds [OF this] obtain s' where p: "heap_Push s2 x = Inr s'" by blast
  note g = heap_Push_frame [OF p]
  from f(5) xn have yx: "y \<noteq> x" by auto
  from f(5) i(2) have s1: "set (pq s1) = set (pq s) - {y}" by auto
  from g(3) s1 have "set (pq s') = insert x (set (pq s) - {y})" by (simp add: s2_def)
  moreover from g(6) [of y] i(2) yx f(6) have "index (mem s' y) = - 1" by (simp add: s2_def)
  moreover from g(4) [of x] have "priority (mem s' x) = p" by (simp add: s2_def)
  moreover from r p have "changePriority s x p = Inr s'" by (simp add: changePriority_def s2_def)
  ultimately show ?thesis using True f(2) by simp
qed

theorem changePriority_unchecked_witness:
  "\<not> attached demo1 1 \<and> in_range demo1 (index (mem demo1 1)) \<and>
   (\<exists>s'. changePriority demo1 1 7 = Inr s' \<and> set (pq s') = {1} \<and>
      index (mem s' 0) = - 1 \<and> priority (mem s' 1) = 7)"
proof -
  have a: "\<not> attached demo1 1" by code_simp
  have b: "in_range demo1 (index (mem demo1 1))" by code_simp
  have c: "index (mem demo1 1) = 0" by code_simp
  from changePriority_unchecked [OF reachable_demo1 a, of 7] a b show ?thesis
    by (auto simp: c c [unfolded One_nat_def] demo1_obs)
qed

theorem changePriority_unchecked_counterexample:
  "pq demo1 = [0] \<and> \<not> attached demo1 1 \<and> \<not> isl (changePriority demo1 1 7) \<and>
   pq (projr (changePriority demo1 1 7)) = [1]"
  by code_simp

text \<open>
  C9. The specification has updatePriority(item, newValue, newPriority) equal to removeAt,
  then setting value and priority, then push. No function of the source takes an Item and a
  new value. What holds instead, with \<open>spec_updatePriority\<close> the specification's
  composition: changePriority(item, p) equals: remove the Item at the item's index, set only its priority to p (the value it
  holds is kept), push it back. update(v, p) equals: remove the root Item, set its value
  to v and its priority to p, push it back.
\<close>

theorem update_functions_refine_spec:
  assumes "index_consistent s" "pq s \<noteq> []"
  shows "changePriority s x p = spec_updatePriority s x (item_value (mem s x)) p \<and>
         update s v p = spec_updatePriority s (pq s ! 0) v p"
proof
  show "changePriority s x p = spec_updatePriority s x (item_value (mem s x)) p"
  proof (cases "heap_Remove s (index (mem s x))")
    case (Inl e)
    then show ?thesis by (simp add: changePriority_def spec_updatePriority_def)
  next
    case (Inr r)
    obtain y s1 where r: "r = (y, s1)" by (cases r)
    from heap_Remove_facts(8) [OF Inr [unfolded r], of x]
    have "(mem s1 x)\<lparr>item_value := item_value (mem s x), priority := p\<rparr> = (mem s1 x)\<lparr>priority := p\<rparr>"
      by simp
    with Inr r show ?thesis by (simp add: changePriority_def spec_updatePriority_def)
  qed
  from assms have i0: "index (mem s (pq s ! 0)) = 0" by (simp add: index_consistent_def)
  show "update s v p = spec_updatePriority s (pq s ! 0) v p"
  proof (cases "heap_Remove s 0")
    case (Inl e)
    with i0 show ?thesis by (simp add: update_def spec_updatePriority_def heap_Pop_Remove)
  next
    case (Inr r)
    obtain y s1 where r: "r = (y, s1)" by (cases r)
    from heap_Remove_facts(2) [OF Inr [unfolded r]] have "y = pq s ! 0" by simp
    with Inr r i0 show ?thesis by (simp add: update_def spec_updatePriority_def heap_Pop_Remove)
  qed
qed

theorem update_functions_refine_spec_witness:
  "changePriority demo2 0 7 = spec_updatePriority demo2 0 10 7 \<and>
   update demo2 3 7 = spec_updatePriority demo2 1 3 7"
proof -
  have a: "index_consistent demo2"
    using reachable_invar [OF reachable_demo2] by (simp add: invar_def idx_ok_def)
  have b: "pq demo2 \<noteq> []" by (simp add: demo2_obs)
  have c: "item_value (mem demo2 0) = 10" by code_simp
  from update_functions_refine_spec [OF a b, of 0 7 3] show ?thesis
    by (simp add: c demo2_obs demo2_obs [unfolded One_nat_def])
qed

theorem updatePriority_counterexample:
  "item_value (mem (projr (changePriority demo1 0 9)) 0) = 10 \<and>
   item_value (mem (projr (spec_updatePriority demo1 0 7 9)) 0) = 7 \<and>
   priority (mem (projr (update demo2 7 3)) 0) = 5 \<and>
   priority (mem (projr (spec_updatePriority demo2 0 7 3)) 0) = 3"
  by code_simp

text \<open>
  C10. update(v, p) takes no Item: on a non-empty heap it always rewrites the Item at the
  root, which has the largest priority, to value v and priority p and puts it back; the
  other Items keep their fields, the heap holds the same Items and has the same length.
  On an empty heap it fails.
\<close>

theorem update_rewrites_root:
  assumes "heap_order s" "length (pq s) \<le> cap s"
  shows "(pq s = [] \<and> update s v p = Inl IndexOutOfRange) \<or>
    (pq s \<noteq> [] \<and>
     (\<exists>s'. update s v p = Inr s' \<and> length (pq s') = length (pq s) \<and> set (pq s') = set (pq s) \<and>
        (\<forall>y \<in> set (pq s). priority (mem s y) \<le> priority (mem s (pq s ! 0))) \<and>
        item_value (mem s' (pq s ! 0)) = v \<and> priority (mem s' (pq s ! 0)) = p \<and>
        (\<forall>y. y \<noteq> pq s ! 0 \<longrightarrow>
           item_value (mem s' y) = item_value (mem s y) \<and> priority (mem s' y) = priority (mem s y))))"
proof (cases "pq s = []")
  case True
  then have "\<not> in_range s 0" by (simp add: in_range_def Len_def)
  from heap_Remove_fails [OF this] True show ?thesis by (simp add: update_def heap_Pop_Remove)
next
  case False
  then have "in_range s 0" by (simp add: in_range_def Len_def)
  from heap_Remove_succeeds [OF this] obtain x s1 where r: "heap_Remove s 0 = Inr (x, s1)"
    by blast
  note f = heap_Remove_facts [OF r]
  from f(2) have x: "x = pq s ! 0" by simp
  define s2 where "s2 = s1\<lparr>mem := (mem s1)(x := (mem s1 x)\<lparr>item_value := v, priority := p\<rparr>)\<rparr>"
  from f(3,4) assms(2) have "length (pq s2) < cap s2" by (simp add: s2_def)
  from heap_Push_succeeds [OF this] obtain s' where ps: "heap_Push s2 x = Inr s'" by blast
  note g = heap_Push_frame [OF ps]
  from r ps have u: "update s v p = Inr s'" by (simp add: update_def heap_Pop_Remove s2_def)
  from g(1) f(3) have l: "length (pq s') = length (pq s)" by (simp add: s2_def)
  from g(3) f(5) have st: "set (pq s') = set (pq s)" by (simp add: s2_def)
  have mx: "priority (mem s y) \<le> priority (mem s x)" if "y \<in> set (pq s)" for y
  proof -
    from that obtain k where k: "k < length (pq s)" "pq s ! k = y"
      by (auto simp: in_set_conv_nth)
    from assms(1) have "heap_upto (key s) (length (pq s))" by (simp add: heap_order_key)
    from heap_upto_root [OF this k(1)] k(2) x show ?thesis by (simp add: key_def)
  qed
  from g(4,5) [of x] have fx: "item_value (mem s' x) = v" "priority (mem s' x) = p"
    by (simp_all add: s2_def)
  have oth: "item_value (mem s' y) = item_value (mem s y) \<and> priority (mem s' y) = priority (mem s y)"
    if "y \<noteq> x" for y
    using that g(4,5) [of y] f(7,8) [of y] by (simp add: s2_def)
  from False u l st mx fx oth show ?thesis unfolding x by blast
qed

theorem update_rewrites_root_witness:
  "update demo0 3 7 = Inl IndexOutOfRange \<and>
   (\<exists>s'. update demo2 3 7 = Inr s' \<and> length (pq s') = 2 \<and> set (pq s') = {0, 1} \<and>
      item_value (mem s' 1) = 3 \<and> priority (mem s' 1) = 7 \<and> priority (mem s' 0) = 5)"
proof -
  have h0: "heap_order demo0" "length (pq demo0) \<le> cap demo0"
    using reachable_invar [OF reachable_demo0] by (simp_all add: invar_def)
  have h2: "heap_order demo2" "length (pq demo2) \<le> cap demo2"
    using reachable_invar [OF reachable_demo2] by (simp_all add: invar_def)
  from update_rewrites_root [OF h0, of 3 7] have "update demo0 3 7 = Inl IndexOutOfRange"
    by (simp add: demo0_obs)
  moreover from update_rewrites_root [OF h2, of 3 7]
  have "\<exists>s'. update demo2 3 7 = Inr s' \<and> length (pq s') = 2 \<and> set (pq s') = {0, 1} \<and>
      item_value (mem s' 1) = 3 \<and> priority (mem s' 1) = 7 \<and> priority (mem s' 0) = 5"
    by (auto simp: demo2_obs demo2_obs [unfolded One_nat_def])
  ultimately show ?thesis by blast
qed

end
